theory Spec2Isabelle
  imports Main "HOL-Library.List_Lexorder" "HOL-Library.Product_Lexorder" "HOL-Library.Sublist"
    "HOL-Library.Multiset"
begin

chapter \<open>The Johnny Decimal index: model\<close>

section \<open>Text\<close>

text \<open>
  A Python \<open>str\<close> is a sequence of Unicode code points, and \<open>len\<close>, \<open>in\<close> and the
  comparison of strings all work on code points. A string is therefore a list of code
  points (natural numbers); \<open>S ''11.01''\<close> writes an ASCII literal. The order on strings
  is the lexicographic order on code points, as in Python.
\<close>

type_synonym str = "nat list"

abbreviation (input) S :: "string \<Rightarrow> str" where
  "S cs \<equiv> map of_char cs"

text \<open>The errors the modelled code can raise.\<close>

datatype error =
  ValueError | IndexError | OSError | PermissionError | NotADirectoryError | FileNotFoundError

text \<open>
  \<open>except (OSError, PermissionError)\<close>: \<open>PermissionError\<close>, \<open>NotADirectoryError\<close> and
  \<open>FileNotFoundError\<close> are subclasses of \<open>OSError\<close>.
\<close>

fun is_OSError :: "error \<Rightarrow> bool" where
  "is_OSError ValueError = False"
| "is_OSError IndexError = False"
| "is_OSError e = True"

text \<open>\<open>str.split(sep)\<close> for a separator of one character: never returns an empty list.\<close>

fun split_on :: "nat \<Rightarrow> str \<Rightarrow> str list" where
  "split_on sep [] = [[]]"
| "split_on sep (c # cs) =
     (if c = sep then [] # split_on sep cs
      else (case split_on sep cs of w # ws \<Rightarrow> (c # w) # ws | [] \<Rightarrow> [[c]]))"

text \<open>
  \<open>int(s)\<close> on a string of ASCII decimal digits. Python's \<open>int\<close> also accepts a sign,
  surrounding white space, underscores between digits and the decimal digits of other
  scripts; the codes the scanner produces (\<open>\d{2}\.\d{2}\<close> on ASCII names) contain none of
  these, and every theorem below that reads a number assumes that the read succeeded.
\<close>

definition is_ascii_digit :: "nat \<Rightarrow> bool" where
  "is_ascii_digit c = (48 \<le> c \<and> c \<le> 57)"

definition py_int :: "str \<Rightarrow> error + nat" where
  "py_int s =
     (if s \<noteq> [] \<and> list_all is_ascii_digit s
      then Inr (foldl (\<lambda>a c. 10 * a + (c - 48)) 0 s)
      else Inl ValueError)"

text \<open>The format \<open>f"{num:02d}"\<close> of a number that is not negative.\<close>

fun digits :: "nat \<Rightarrow> str" where
  "digits n = (if n < 10 then [48 + n] else digits (n div 10) @ [48 + n mod 10])"

definition fmt02d :: "nat \<Rightarrow> str" where
  "fmt02d n = (let ds = digits n in replicate (2 - length ds) 48 @ ds)"

text \<open>\<open>f"{code}.{num:02d}"\<close>\<close>

definition fmt_id :: "str \<Rightarrow> nat \<Rightarrow> str" where
  "fmt_id code num = code @ S ''.'' @ fmt02d num"

text \<open>Running a function that may raise over a list, stopping at the first error.\<close>

fun collect :: "('a \<Rightarrow> error + 'b) \<Rightarrow> 'a list \<Rightarrow> error + 'b list" where
  "collect f [] = Inr []"
| "collect f (x # xs) =
     (case f x of
        Inl e \<Rightarrow> Inl e
      | Inr y \<Rightarrow> (case collect f xs of Inl e \<Rightarrow> Inl e | Inr ys \<Rightarrow> Inr (y # ys)))"

text \<open>A call returns when it does not raise.\<close>

fun returns :: "error + 'a \<Rightarrow> bool" where
  "returns (Inr x) = True"
| "returns (Inl e) = False"

section \<open>Dictionaries\<close>

text \<open>
  A Python \<open>dict\<close> keeps its keys in insertion order; storing under a key that is present
  replaces the value and keeps the key's position. A dictionary is an association list
  with that store operation; \<open>d.get(k)\<close> is \<open>map_of d k\<close>.
\<close>

type_synonym ('k, 'v) dict = "('k \<times> 'v) list"

fun dict_set :: "'k \<Rightarrow> 'v \<Rightarrow> ('k, 'v) dict \<Rightarrow> ('k, 'v) dict" where
  "dict_set k v [] = [(k, v)]"
| "dict_set k v ((k', v') # d) =
     (if k = k' then (k, v) # d else (k', v') # dict_set k v d)"

definition dict_values :: "('k, 'v) dict \<Rightarrow> 'v list" where
  "dict_values d = map snd d"

text \<open>\<open>for code in sorted(d.keys()): yield d[code]\<close>\<close>

definition sorted_values :: "('k::linorder, 'v) dict \<Rightarrow> 'v list" where
  "sorted_values d = map snd (sort_key fst d)"

text \<open>\<open>{key(x): x for x in xs}\<close>\<close>

definition dict_of :: "('v \<Rightarrow> 'k) \<Rightarrow> 'v list \<Rightarrow> ('k, 'v) dict" where
  "dict_of key xs = foldl (\<lambda>d x. dict_set (key x) x d) [] xs"

section \<open>The typed index tree (models.py)\<close>

text \<open>
  The classes \<open>JDId\<close>, \<open>JDCategory\<close>, \<open>JDArea\<close> and \<open>JDex\<close>. The fields \<open>code\<close> and
  \<open>name\<close> carry the class as a prefix here (\<open>jdid_code\<close>, \<open>jdcat_name\<close>, ...), as does
  \<open>section\<close> (\<open>jdid_section\<close>); \<open>_ids\<close> is \<open>jdcat_ids\<close>, \<open>_categories\<close> is
  \<open>jdarea_categories\<close> and \<open>_areas\<close> is the index itself.
  The tree owns its children by value. The parent references \<open>_category\<close>, \<open>_area\<close> and
  \<open>_index\<close> are not fields of the tree: \<open>scan_filesystem\<close> and \<open>JDex.from_dict\<close>, the
  only builders of an index in the repository, create every object once and add it to one
  parent, so the parent of a child is the node that holds it, and the flattened view of the
  categories pairs each category with that area. The object graph with its references,
  for the operations that change them, is modelled in the section on ownership.
\<close>

record JDId =
  jdid_code :: str
  jdid_name :: str
  jdid_section :: bool

record JDCategory =
  jdcat_code :: str
  jdcat_name :: str
  jdcat_ids :: "(str, JDId) dict"

record JDArea =
  jdarea_code :: str
  jdarea_name :: str
  jdarea_categories :: "(str, JDCategory) dict"

type_synonym JDex = "(str, JDArea) dict"

subsection \<open>JDId\<close>

text \<open>\<open>int(self.code.split(".")[1])\<close>\<close>

definition id_number :: "JDId \<Rightarrow> error + nat" where
  "id_number i =
     (case split_on 46 (jdid_code i) of
        _ # nn # _ \<Rightarrow> py_int nn
      | _ \<Rightarrow> Inl IndexError)"

text \<open>The property \<open>decade\<close>: \<open>(self.id_number // 10) * 10\<close>\<close>

definition id_decade :: "JDId \<Rightarrow> error + nat" where
  "id_decade i = (case id_number i of Inl e \<Rightarrow> Inl e | Inr n \<Rightarrow> Inr ((n div 10) * 10))"

subsection \<open>JDCategory: the slot allocator\<close>

text \<open>\<open>JDCategory.__iter__\<close>: the Ids by ascending code.\<close>

definition cat_iter :: "JDCategory \<Rightarrow> JDId list" where
  "cat_iter cat = sorted_values (jdcat_ids cat)"

definition section_ids :: "JDCategory \<Rightarrow> JDId list" where
  "section_ids cat = filter (\<lambda>jd_id. jdid_section jd_id) (cat_iter cat)"

definition section_decades :: "JDCategory \<Rightarrow> error + nat set" where
  "section_decades cat =
     (case collect id_decade (section_ids cat) of Inl e \<Rightarrow> Inl e | Inr ds \<Rightarrow> Inr (set ds))"

definition used_slots :: "JDCategory \<Rightarrow> error + nat set" where
  "used_slots cat =
     (case collect id_number (cat_iter cat) of Inl e \<Rightarrow> Inl e | Inr ns \<Rightarrow> Inr (set ns))"

text \<open>
  \<open>get_next_available_id\<close>: the loop over \<open>range(100)\<close> returns at the first number that
  is not used, and \<open>None\<close> after the loop.
\<close>

definition get_next_available_id :: "JDCategory \<Rightarrow> error + str option" where
  "get_next_available_id cat =
     (case used_slots cat of
        Inl e \<Rightarrow> Inl e
      | Inr used \<Rightarrow>
          Inr (map_option (fmt_id (jdcat_code cat)) (find (\<lambda>num. num \<notin> used) [0..<100])))"

text \<open>
  \<open>get_available_id_slots\<close>: the body of the loop over \<open>range(100)\<close>, on the loop's
  variables \<open>available\<close>, \<open>count_initial\<close> and \<open>decades_covered\<close>.
\<close>

definition slot_step ::
  "str \<Rightarrow> nat set \<Rightarrow> nat set \<Rightarrow> int \<Rightarrow> str list \<times> int \<times> nat set \<Rightarrow> nat \<Rightarrow> str list \<times> int \<times> nat set" where
  "slot_step code used sections limit st num =
     (case st of (available, count_initial, decades_covered) \<Rightarrow>
        if num \<in> used then st
        else
          let decade = (num div 10) * 10 in
          if decade = 0 \<and> count_initial < limit
          then (available @ [fmt_id code num], count_initial + 1, decades_covered)
          else if decade \<in> sections \<and> decade \<notin> decades_covered
          then (available @ [fmt_id code num], count_initial, insert decade decades_covered)
          else st)"

definition get_available_id_slots :: "JDCategory \<Rightarrow> int \<Rightarrow> error + str list" where
  "get_available_id_slots cat limit =
     (case used_slots cat of
        Inl e \<Rightarrow> Inl e
      | Inr used \<Rightarrow>
          (case section_decades cat of
             Inl e \<Rightarrow> Inl e
           | Inr sections \<Rightarrow>
               Inr (sort (fst (foldl (slot_step (jdcat_code cat) used sections limit)
                                     ([], 0, {}) [0..<100])))))"

section \<open>The legacy index of nested dictionaries (jd\_core.py)\<close>

text \<open>
  The legacy index is the JSON shape itself: \<open>{"areas": {code: {"name", "categories":
  {code: {"name", "ids": {code: {"name", "section"?}}}}}}}\<close>. The entry of an Id has the key
  \<open>"section"\<close> only when it is a section, and then with the value \<open>True\<close>:
  \<open>id_data.get("section")\<close> is the field \<open>d_section\<close>.
\<close>

record id_entry =
  d_name :: str
  d_section :: bool

record cat_entry =
  c_name :: str
  c_ids :: "(str, id_entry) dict"

record area_entry =
  a_name :: str
  a_categories :: "(str, cat_entry) dict"

type_synonym JDIndex = "(str, area_entry) dict"

text \<open>
  The loop of \<open>get_next_id\<close> and \<open>get_available_ids\<close> that collects \<open>existing\<close> and
  \<open>sections\<close>, in the order of the dictionary.
\<close>

fun collect_numbers :: "(str, id_entry) dict \<Rightarrow> error + nat set \<times> nat set" where
  "collect_numbers [] = Inr ({}, {})"
| "collect_numbers ((id_code, id_data) # ids) =
     (case (case split_on 46 id_code of _ # nn # _ \<Rightarrow> py_int nn | _ \<Rightarrow> Inl IndexError) of
        Inl e \<Rightarrow> Inl e
      | Inr num \<Rightarrow>
          (case collect_numbers ids of
             Inl e \<Rightarrow> Inl e
           | Inr (existing, sections) \<Rightarrow>
               if d_section id_data then Inr (existing, insert num sections)
               else Inr (insert num existing, sections)))"

text \<open>The first area, in the order of the dictionary, that has the category.\<close>

definition find_category :: "str \<Rightarrow> JDIndex \<Rightarrow> cat_entry option" where
  "find_category cat_code index =
     (case find (\<lambda>(area_code, area). map_of (a_categories area) cat_code \<noteq> None) index of
        None \<Rightarrow> None
      | Some (area_code, area) \<Rightarrow> map_of (a_categories area) cat_code)"

definition get_next_id :: "str \<Rightarrow> JDIndex \<Rightarrow> error + str option" where
  "get_next_id cat_code index =
     (case find_category cat_code index of
        None \<Rightarrow> Inr (Some (fmt_id cat_code 0))
      | Some cat \<Rightarrow>
          (case collect_numbers (c_ids cat) of
             Inl e \<Rightarrow> Inl e
           | Inr (existing, sections) \<Rightarrow>
               Inr (map_option (fmt_id cat_code)
                      (find (\<lambda>num. num \<notin> existing \<and> num \<notin> sections) [0..<100]))))"

text \<open>
  \<open>has_from_decade\<close> reads the numbers back from the codes collected so far:
  \<open>int(a.split(".")[1]) // 10 * 10 == decade\<close>.
\<close>

definition code_decade :: "str \<Rightarrow> error + nat" where
  "code_decade a =
     (case split_on 46 a of
        _ # nn # _ \<Rightarrow> (case py_int nn of Inl e \<Rightarrow> Inl e | Inr n \<Rightarrow> Inr (n div 10 * 10))
      | _ \<Rightarrow> Inl IndexError)"

fun any_from_decade :: "nat \<Rightarrow> str list \<Rightarrow> error + bool" where
  "any_from_decade decade [] = Inr False"
| "any_from_decade decade (a # available) =
     (case code_decade a of
        Inl e \<Rightarrow> Inl e
      | Inr d \<Rightarrow> if d = decade then Inr True else any_from_decade decade available)"

definition legacy_step ::
  "str \<Rightarrow> nat set \<Rightarrow> nat set \<Rightarrow> int \<Rightarrow> error + str list \<times> int \<Rightarrow> nat \<Rightarrow> error + str list \<times> int" where
  "legacy_step cat_code existing sections limit st num =
     (case st of
        Inl e \<Rightarrow> Inl e
      | Inr (available, count_before_sections) \<Rightarrow>
          if num \<in> existing \<or> num \<in> sections then st
          else
            let decade = (num div 10) * 10 in
            if decade = 0 \<and> count_before_sections < limit
            then Inr (available @ [fmt_id cat_code num], count_before_sections + 1)
            else if decade \<in> sections
            then (case any_from_decade decade available of
                    Inl e \<Rightarrow> Inl e
                  | Inr has_from_decade \<Rightarrow>
                      if \<not> has_from_decade
                      then Inr (available @ [fmt_id cat_code num], count_before_sections)
                      else st)
            else st)"

definition get_available_ids :: "str \<Rightarrow> JDIndex \<Rightarrow> int \<Rightarrow> error + str list" where
  "get_available_ids cat_code index limit =
     (case find_category cat_code index of
        None \<Rightarrow> Inr (map (fmt_id cat_code) [0..<nat limit])
      | Some cat \<Rightarrow>
          (case collect_numbers (c_ids cat) of
             Inl e \<Rightarrow> Inl e
           | Inr (existing, sections) \<Rightarrow>
               (case foldl (legacy_step cat_code existing sections limit) (Inr ([], 0)) [0..<100] of
                  Inl e \<Rightarrow> Inl e
                | Inr (available, count_before_sections) \<Rightarrow> Inr (sort available))))"

text \<open>
  \<open>JDId.to_dict\<close> and \<open>JDCategory.to_dict\<close>: the legacy entry of a typed category, the
  state the two allocators are compared on.
\<close>

definition id_to_dict :: "JDId \<Rightarrow> id_entry" where
  "id_to_dict i = \<lparr>d_name = jdid_name i, d_section = jdid_section i\<rparr>"

definition cat_to_dict :: "JDCategory \<Rightarrow> cat_entry" where
  "cat_to_dict cat =
     \<lparr>c_name = jdcat_name cat,
      c_ids = map (\<lambda>(code, jd_id). (code, id_to_dict jd_id)) (sort_key fst (jdcat_ids cat))\<rparr>"

text \<open>\<open>JDArea.to_dict\<close> and \<open>JDex.to_dict\<close>\<close>

definition area_to_dict :: "JDArea \<Rightarrow> area_entry" where
  "area_to_dict area =
     \<lparr>a_name = jdarea_name area,
      a_categories = map (\<lambda>(code, cat). (code, cat_to_dict cat)) (sort_key fst (jdarea_categories area))\<rparr>"

definition to_dict :: "JDex \<Rightarrow> JDIndex" where
  "to_dict index = map (\<lambda>(code, area). (code, area_to_dict area)) (sort_key fst index)"

section \<open>The curated slots in the words of the specification\<close>

text \<open>
  The slots as the specification describes them, for a code, the set of the used numbers,
  the set of the section headers and a limit: up to \<open>limit\<close> unused numbers of the decade
  0, in ascending order, and for each decade from 10 to 90 whose own number is a section
  header the first unused number of that decade, if there is one; the codes sorted.
\<close>

definition slots_by_sections :: "str \<Rightarrow> nat set \<Rightarrow> nat set \<Rightarrow> int \<Rightarrow> str list" where
  "slots_by_sections code used headers limit =
     sort (map (fmt_id code)
       (take (nat limit) (filter (\<lambda>n. n \<notin> used) [0..<10]) @
        concat (map (\<lambda>d. if d \<in> headers then take 1 (filter (\<lambda>n. n \<notin> used) [d..<d + 10]) else [])
                  [10, 20, 30, 40, 50, 60, 70, 80, 90])))"

text \<open>The numbers of the section-flagged Ids of a category.\<close>

definition section_numbers :: "JDCategory \<Rightarrow> nat set" where
  "section_numbers cat =
     {n. \<exists>jd_id \<in> snd ` set (jdcat_ids cat). jdid_section jd_id \<and> id_number jd_id = Inr n}"

section \<open>Directory names and the scanner (core.py)\<close>

text \<open>
  \<open>\s\<close> in a pattern on \<open>str\<close>, and the white space of \<open>str.split()\<close>: the code points
  for which \<open>str.isspace\<close> holds.
\<close>

definition is_space :: "nat \<Rightarrow> bool" where
  "is_space c =
     ((9 \<le> c \<and> c \<le> 13) \<or> (28 \<le> c \<and> c \<le> 32) \<or> c = 133 \<or> c = 160 \<or> c = 5760 \<or>
      (8192 \<le> c \<and> c \<le> 8202) \<or> c = 8232 \<or> c = 8233 \<or> c = 8239 \<or> c = 8287 \<or> c = 12288)"

text \<open>
  The tail \<open>(.*)$\<close> of the three patterns: \<open>.\<close> matches every code point but the line
  feed, and \<open>$\<close> matches at the end of the string and before a line feed that ends it.
\<close>

fun dot_star_end :: "str \<Rightarrow> bool" where
  "dot_star_end [] = True"
| "dot_star_end [c] = True"
| "dot_star_end (c # cs) = (c \<noteq> 10 \<and> dot_star_end cs)"

text \<open>\<open>\s+(.*)$\<close>: some white space, one code point at least, then the tail.\<close>

fun spaces_rest :: "str \<Rightarrow> bool" where
  "spaces_rest [] = False"
| "spaces_rest (c # cs) = (is_space c \<and> (dot_star_end cs \<or> spaces_rest cs))"

text \<open>
  The three patterns, as \<open>PATTERN.match(name)\<close> followed by \<open>group(1)\<close>: \<open>None\<close> when
  the name does not match. \<open>\d\<close> is read as an ASCII digit; on \<open>str\<close> Python also accepts
  the decimal digits of other scripts.
\<close>

definition AREA_PATTERN :: "str \<Rightarrow> str option" where
  "AREA_PATTERN name =
     (case name of
        a # b # c # d # e # rest \<Rightarrow>
          if is_ascii_digit a \<and> b = 48 \<and> c = 45 \<and> is_ascii_digit d \<and> e = 57 \<and> spaces_rest rest
          then Some [a, b, c, d, e] else None
      | _ \<Rightarrow> None)"

definition CATEGORY_PATTERN :: "str \<Rightarrow> str option" where
  "CATEGORY_PATTERN name =
     (case name of
        a # b # rest \<Rightarrow>
          if is_ascii_digit a \<and> is_ascii_digit b \<and> spaces_rest rest
          then Some [a, b] else None
      | _ \<Rightarrow> None)"

definition ID_PATTERN :: "str \<Rightarrow> str option" where
  "ID_PATTERN name =
     (case name of
        a # b # c # d # e # rest \<Rightarrow>
          if is_ascii_digit a \<and> is_ascii_digit b \<and> c = 46 \<and> is_ascii_digit d \<and> is_ascii_digit e \<and>
             spaces_rest rest
          then Some [a, b, c, d, e] else None
      | _ \<Rightarrow> None)"

text \<open>
  What the scanner takes from a directory name at each tier: the code is \<open>group(1)\<close>, the
  name of the entry is the whole directory name, and an Id is a section when the glyph
  U+25A0 occurs in the name.
\<close>

definition parse_area :: "str \<Rightarrow> (str \<times> str) option" where
  "parse_area name = map_option (\<lambda>area_code. (area_code, name)) (AREA_PATTERN name)"

definition parse_category :: "str \<Rightarrow> (str \<times> str) option" where
  "parse_category name = map_option (\<lambda>cat_code. (cat_code, name)) (CATEGORY_PATTERN name)"

definition parse_id :: "str \<Rightarrow> (str \<times> str \<times> bool) option" where
  "parse_id name = map_option (\<lambda>id_code. (id_code, name, 9632 \<in> set name)) (ID_PATTERN name)"

text \<open>
  The file system under the root. Every call the code makes on a path goes to the
  operating system and can fail there: \<open>Path.exists\<close> and \<open>Path.is_dir\<close> read the
  status of the path and pass on every \<open>OSError\<close> but the ones that say that nothing is
  there; \<open>Path.iterdir\<close> lists a directory and passes on every \<open>OSError\<close>. A fault
  is a refusal (\<open>PermissionError\<close>, as on a path below a directory that may not be
  searched, or on listing a directory that may not be read) or another failure of the
  system (\<open>OSError\<close>, as on a name that is too long).

  A node is what a name in a directory stands for: something that is no directory
  (\<open>File\<close>), a directory with its entries in the order \<open>iterdir\<close> yields them, a
  directory whose status can be read and whose listing fails (\<open>NoList\<close>), or a path whose
  status cannot be read (\<open>NoStat\<close>). A directory that may be read and may not be searched
  is a \<open>Dir\<close> whose entries are all \<open>NoStat Denied\<close>. A path is a \<open>node option\<close>,
  \<open>None\<close> where nothing is there.
\<close>

datatype fault = Denied | Failed

fun raised :: "fault \<Rightarrow> error" where
  "raised Denied = PermissionError"
| "raised Failed = OSError"

datatype node = File | Dir "(str \<times> node) list" | NoList fault | NoStat fault

fun is_dir :: "node \<Rightarrow> error + bool" where
  "is_dir File = Inr False"
| "is_dir (Dir entries) = Inr True"
| "is_dir (NoList f) = Inr True"
| "is_dir (NoStat f) = Inl (raised f)"

fun exists :: "node option \<Rightarrow> error + bool" where
  "exists None = Inr False"
| "exists (Some (NoStat f)) = Inl (raised f)"
| "exists (Some n) = Inr True"

fun iterdir :: "node option \<Rightarrow> error + (str \<times> node) list" where
  "iterdir None = Inl FileNotFoundError"
| "iterdir (Some File) = Inl NotADirectoryError"
| "iterdir (Some (Dir entries)) = Inr entries"
| "iterdir (Some (NoList f)) = Inl (raised f)"
| "iterdir (Some (NoStat f)) = Inl (raised f)"











section \<open>The index: flattened views and search (models.py, JDex)\<close>

text \<open>\<open>JDex.__iter__\<close> and \<open>JDArea.__iter__\<close>: the children by ascending code.\<close>

definition jdex_iter :: "JDex \<Rightarrow> JDArea list" where
  "jdex_iter index = sorted_values index"

definition area_iter :: "JDArea \<Rightarrow> JDCategory list" where
  "area_iter area = sorted_values (jdarea_categories area)"

text \<open>
  \<open>JDex.categories\<close>, \<open>{cat.code: cat for cat in chain.from_iterable(self)}\<close>: each
  category comes with the area that holds it, which is its \<open>area\<close>. \<open>JDex.ids\<close> is
  built from the values of that view. Both are cached properties; the index does not
  change between the calls modelled here.
\<close>

definition categories :: "JDex \<Rightarrow> (str, JDArea \<times> JDCategory) dict" where
  "categories index =
     dict_of (\<lambda>(area, cat). jdcat_code cat)
       (concat (map (\<lambda>area. map (Pair area) (area_iter area)) (jdex_iter index)))"

definition ids :: "JDex \<Rightarrow> (str, JDId) dict" where
  "ids index =
     dict_of jdid_code (concat (map (\<lambda>(area, cat). cat_iter cat) (dict_values (categories index))))"

definition get_area :: "JDex \<Rightarrow> str \<Rightarrow> JDArea option" where
  "get_area index code = map_of index code"

definition get_category :: "JDex \<Rightarrow> str \<Rightarrow> (JDArea \<times> JDCategory) option" where
  "get_category index code = map_of (categories index) code"

definition get_id :: "JDex \<Rightarrow> str \<Rightarrow> JDId option" where
  "get_id index code = map_of (ids index) code"

datatype item = Area JDArea | Category JDCategory | Id JDId

text \<open>\<open>find_by_code\<close>: 45 is the hyphen, 46 the dot.\<close>

definition find_by_code :: "JDex \<Rightarrow> str \<Rightarrow> item option" where
  "find_by_code index code =
     (if 45 \<in> set code then map_option Area (get_area index code)
      else if 46 \<in> set code then map_option Id (get_id index code)
      else map_option (\<lambda>(area, cat). Category cat) (get_category index code))"

text \<open>
  \<open>str.lower()\<close> on ASCII letters; Python also lowers the capital letters of other
  scripts. No theorem below depends on which code points \<open>lower\<close> changes.
\<close>

definition lower :: "str \<Rightarrow> str" where
  "lower s = map (\<lambda>c. if 65 \<le> c \<and> c \<le> 90 then c + 32 else c) s"

text \<open>\<open>needle in hay\<close>\<close>

fun contains :: "str \<Rightarrow> str \<Rightarrow> bool" where
  "contains needle [] = (needle = [])"
| "contains needle (c # cs) = (prefix needle (c # cs) \<or> contains needle cs)"

text \<open>\<open>str.split()\<close>: the maximal runs of code points that are not white space.\<close>

function split_ws :: "str \<Rightarrow> str list" where
  "split_ws s =
     (case dropWhile is_space s of
        [] \<Rightarrow> []
      | c # cs \<Rightarrow>
          takeWhile (\<lambda>x. \<not> is_space x) (c # cs) # split_ws (dropWhile (\<lambda>x. \<not> is_space x) cs))"
  by pat_completeness auto
termination
proof (relation "measure length")
  fix s c cs
  assume "dropWhile is_space s = c # cs"
  then have "length (c # cs) \<le> length s"
    by (metis length_dropWhile_le)
  moreover have "length (dropWhile (\<lambda>x. \<not> is_space x) cs) \<le> length cs"
    by (rule length_dropWhile_le)
  ultimately show "(dropWhile (\<lambda>x. \<not> is_space x) cs, s) \<in> measure length"
    by simp
qed simp

declare split_ws.simps [simp del]

definition matches_all_words :: "str \<Rightarrow> str list \<Rightarrow> bool" where
  "matches_all_words name words = list_all (\<lambda>word. contains word (lower name)) words"

definition score_match :: "str \<Rightarrow> str \<Rightarrow> int" where
  "score_match name query =
     (if contains (lower query) (lower name) then 100 - int (length name)
      else - int (length name))"

text \<open>
  \<open>JDex.search\<close>. \<open>search_results\<close> is the list \<open>results\<close> after the sort, with the
  score and the code of every entry; \<open>search\<close> returns its entries.
\<close>

definition search_results :: "str \<Rightarrow> str option \<Rightarrow> bool \<Rightarrow> JDex \<Rightarrow> (int \<times> str \<times> item) list" where
  "search_results query level include_sections index =
     (let query_words = split_ws (lower query);
          from_areas =
            (if level = None \<or> level = Some (S ''area'')
             then map (\<lambda>area. (score_match (jdarea_name area) query, jdarea_code area, Area area))
                    (filter (\<lambda>area. matches_all_words (jdarea_name area) query_words)
                       (jdex_iter index))
             else []);
          from_categories =
            (if level = None \<or> level = Some (S ''category'')
             then map (\<lambda>(area, cat). (score_match (jdcat_name cat) query, jdcat_code cat, Category cat))
                    (filter (\<lambda>(area, cat). matches_all_words (jdcat_name cat) query_words)
                       (dict_values (categories index)))
             else []);
          from_ids =
            (if level = None \<or> level = Some (S ''id'')
             then map (\<lambda>jd_id. (score_match (jdid_name jd_id) query, jdid_code jd_id, Id jd_id))
                    (filter (\<lambda>jd_id. \<not> (jdid_section jd_id \<and> \<not> include_sections) \<and>
                                      matches_all_words (jdid_name jd_id) query_words)
                       (dict_values (ids index)))
             else [])
      in sort_key (\<lambda>(score, code, item). (- score, code)) (from_areas @ from_categories @ from_ids))"

definition search :: "str \<Rightarrow> str option \<Rightarrow> bool \<Rightarrow> JDex \<Rightarrow> item list" where
  "search query level include_sections index =
     map (\<lambda>(score, code, item). item) (search_results query level include_sections index)"

text \<open>
  The entries a search looks at, in the order it discovers them, and their names and codes.
\<close>

definition candidates :: "str option \<Rightarrow> bool \<Rightarrow> JDex \<Rightarrow> item list" where
  "candidates level include_sections index =
     (if level = None \<or> level = Some (S ''area'') then map Area (jdex_iter index) else []) @
     (if level = None \<or> level = Some (S ''category'')
      then map (\<lambda>(area, cat). Category cat) (dict_values (categories index)) else []) @
     (if level = None \<or> level = Some (S ''id'')
      then map Id (filter (\<lambda>jd_id. \<not> (jdid_section jd_id \<and> \<not> include_sections))
                     (dict_values (ids index)))
      else [])"

text \<open>Every category of every area, and every Id of every category, by ascending codes.\<close>

definition all_categories :: "JDex \<Rightarrow> JDCategory list" where
  "all_categories index = concat (map area_iter (jdex_iter index))"

definition all_ids :: "JDex \<Rightarrow> JDId list" where
  "all_ids index = concat (map cat_iter (all_categories index))"

text \<open>
  The entries of the index itself in the selected tier: every area, every category of
  every area and every Id of every category, sections left out unless asked for.
\<close>

definition tier_entries :: "str option \<Rightarrow> bool \<Rightarrow> JDex \<Rightarrow> item list" where
  "tier_entries level include_sections index =
     (if level = None \<or> level = Some (S ''area'') then map Area (jdex_iter index) else []) @
     (if level = None \<or> level = Some (S ''category'')
      then map Category (all_categories index) else []) @
     (if level = None \<or> level = Some (S ''id'')
      then map Id (filter (\<lambda>jd_id. \<not> (jdid_section jd_id \<and> \<not> include_sections))
                     (all_ids index))
      else [])"

fun item_name :: "item \<Rightarrow> str" where
  "item_name (Area area) = jdarea_name area"
| "item_name (Category cat) = jdcat_name cat"
| "item_name (Id jd_id) = jdid_name jd_id"

fun item_code :: "item \<Rightarrow> str" where
  "item_code (Area area) = jdarea_code area"
| "item_code (Category cat) = jdcat_code cat"
| "item_code (Id jd_id) = jdid_code jd_id"

text \<open>
  The claims' reading of a match and of its score: a word occurs in a name when the name
  is some text, the word, and some text. The white-space-separated words of a text are
  its runs of code points that are not white space and that white space or an end of the
  text bounds on both sides.
\<close>

definition is_word_of :: "str \<Rightarrow> str \<Rightarrow> bool" where
  "is_word_of word s \<longleftrightarrow>
     word \<noteq> [] \<and> \<not> list_ex is_space word \<and>
     (\<exists>before after. s = before @ word @ after \<and>
        (before = [] \<or> is_space (last before)) \<and> (after = [] \<or> is_space (hd after)))"

definition occurs_in :: "str \<Rightarrow> str \<Rightarrow> bool" where
  "occurs_in word hay = (\<exists>before after. hay = before @ word @ after)"

definition word_match :: "str \<Rightarrow> item \<Rightarrow> bool" where
  "word_match query entry =
     (\<forall>word \<in> set (split_ws (lower query)). occurs_in word (lower (item_name entry)))"

definition scored :: "str \<Rightarrow> item \<Rightarrow> int \<times> str \<times> item" where
  "scored query entry =
     (if occurs_in (lower query) (lower (item_name entry))
      then 100 - int (length (item_name entry)) else - int (length (item_name entry)),
      item_code entry, entry)"

definition rank_key :: "int \<times> str \<times> item \<Rightarrow> int \<times> str" where
  "rank_key r = (case r of (score, code, item) \<Rightarrow> (- score, code))"

section \<open>The path resolver (core.py)\<close>

text \<open>
  \<open>pattern.match(item.name)\<close> for the pattern \<open>^{re.escape(code)}\s\<close>: the name starts
  with the code and a white-space character.
\<close>

definition code_then_space :: "str \<Rightarrow> str \<Rightarrow> bool" where
  "code_then_space code name =
     (prefix code name \<and> (case drop (length code) name of [] \<Rightarrow> False | c # rest \<Rightarrow> is_space c))"

text \<open>
  \<open>_find_folder_by_code\<close>. \<open>parent.exists()\<close> is called before the \<open>try\<close>, so what
  it raises is passed on. The loop over \<open>parent.iterdir()\<close> is inside the \<open>try\<close>: it
  returns the first entry that is a directory and whose name matches, and an \<open>OSError\<close>
  from \<open>iterdir\<close> or from \<open>is_dir\<close> on an entry before that one ends it with \<open>None\<close>.
  The result is the entry found, its name and the directory.
\<close>

fun first_folder :: "str \<Rightarrow> (str \<times> node) list \<Rightarrow> error + (str \<times> node) option" where
  "first_folder code [] = Inr None"
| "first_folder code ((name, item) # rest) =
     (case is_dir item of
        Inl e \<Rightarrow> Inl e
      | Inr d \<Rightarrow>
          if d \<and> code_then_space code name then Inr (Some (name, item))
          else first_folder code rest)"

definition find_folder_by_code :: "node option \<Rightarrow> str \<Rightarrow> error + (str \<times> node) option" where
  "find_folder_by_code parent code =
     (case exists parent of
        Inl e \<Rightarrow> Inl e
      | Inr False \<Rightarrow> Inr None
      | Inr True \<Rightarrow>
          (case (case iterdir parent of
                   Inl e \<Rightarrow> Inl e
                 | Inr entries \<Rightarrow> first_folder code entries) of
             Inl e \<Rightarrow> if is_OSError e then Inr None else Inl e
           | Inr found \<Rightarrow> Inr found))"

text \<open>
  \<open>resolve_path\<close>. A path is the list of the directory names below the root. \<open>not
  category\<close> holds for a category without Ids (\<open>JDCategory\<close> has \<open>__len__\<close>), and
  \<open>not category.area\<close> for an area without categories.
\<close>

type_synonym path = "str list"

definition resolve_category ::
  "JDex \<Rightarrow> node option \<Rightarrow> str \<Rightarrow> error + (path \<times> node) option" where
  "resolve_category index jd_root cat_code =
     (case get_category index cat_code of
        None \<Rightarrow> Inr None
      | Some (area, category) \<Rightarrow>
          if jdcat_ids category = [] \<or> jdarea_categories area = [] then Inr None
          else
            (case find_folder_by_code jd_root (jdarea_code area) of
               Inl e \<Rightarrow> Inl e
             | Inr None \<Rightarrow> Inr None
             | Inr (Some (area_name, area_path)) \<Rightarrow>
                 (case find_folder_by_code (Some area_path) cat_code of
                    Inl e \<Rightarrow> Inl e
                  | Inr None \<Rightarrow> Inr None
                  | Inr (Some (cat_name, cat_path)) \<Rightarrow>
                      Inr (Some ([area_name, cat_name], cat_path)))))"

definition resolve_path :: "str \<Rightarrow> JDex \<Rightarrow> node option \<Rightarrow> error + path option" where
  "resolve_path code index jd_root =
     (case find_by_code index code of
        None \<Rightarrow> Inr None
      | Some item \<Rightarrow>
          if 45 \<in> set code
          then (case find_folder_by_code jd_root code of
                  Inl e \<Rightarrow> Inl e
                | Inr None \<Rightarrow> Inr None
                | Inr (Some (name, d)) \<Rightarrow> Inr (Some [name]))
          else if 46 \<in> set code
          then (case split_on 46 code of
                  [] \<Rightarrow> Inl IndexError
                | cat_code # rest \<Rightarrow>
                    (case resolve_category index jd_root cat_code of
                       Inl e \<Rightarrow> Inl e
                     | Inr None \<Rightarrow> Inr None
                     | Inr (Some (cat_names, cat_path)) \<Rightarrow>
                         (case find_folder_by_code (Some cat_path) code of
                            Inl e \<Rightarrow> Inl e
                          | Inr None \<Rightarrow> Inr None
                          | Inr (Some (name, d)) \<Rightarrow> Inr (Some (cat_names @ [name])))))
          else (case resolve_category index jd_root code of
                  Inl e \<Rightarrow> Inl e
                | Inr None \<Rightarrow> Inr None
                | Inr (Some (cat_names, cat_path)) \<Rightarrow> Inr (Some cat_names)))"

text \<open>
  A lookup finds nothing under a parent that is missing or cannot be listed, or that has no
  entry whose name starts with the code and a white-space character.
\<close>

definition no_child :: "node option \<Rightarrow> str \<Rightarrow> bool" where
  "no_child parent code =
     (case parent of
        Some (Dir entries) \<Rightarrow> \<not> list_ex (\<lambda>(name, item). code_then_space code name) entries
      | _ \<Rightarrow> True)"

text \<open>
  The category code that \<open>resolve_path\<close> looks up for a code without a hyphen:
  \<open>code.split(".")[0]\<close> for the code of an Id, the code itself otherwise.
\<close>

definition category_code_of :: "str \<Rightarrow> str" where
  "category_code_of code =
     (if 46 \<in> set code then (case split_on 46 code of cat_code # rest \<Rightarrow> cat_code | [] \<Rightarrow> [])
      else code)"

text \<open>The index with the section flag of every Id replaced by \<open>f\<close> of the Id.\<close>

definition flag_id :: "(JDId \<Rightarrow> bool) \<Rightarrow> JDId \<Rightarrow> JDId" where
  "flag_id f jd_id = jd_id\<lparr>jdid_section := f jd_id\<rparr>"

definition flag_category :: "(JDId \<Rightarrow> bool) \<Rightarrow> JDCategory \<Rightarrow> JDCategory" where
  "flag_category f cat =
     cat\<lparr>jdcat_ids := map (\<lambda>(code, jd_id). (code, flag_id f jd_id)) (jdcat_ids cat)\<rparr>"

definition flag_area :: "(JDId \<Rightarrow> bool) \<Rightarrow> JDArea \<Rightarrow> JDArea" where
  "flag_area f area =
     area\<lparr>jdarea_categories :=
            map (\<lambda>(code, cat). (code, flag_category f cat)) (jdarea_categories area)\<rparr>"

definition flag_index :: "(JDId \<Rightarrow> bool) \<Rightarrow> JDex \<Rightarrow> JDex" where
  "flag_index f index = map (\<lambda>(code, area). (code, flag_area f area)) index"

section \<open>Ownership: the object graph (models.py)\<close>

text \<open>
  \<open>add_id\<close>, \<open>remove_id\<close>, \<open>add_category\<close> and \<open>remove_category\<close> change objects
  that other objects refer to, so here the objects live in a store under addresses: a
  parent's mapping holds the addresses of its children, and a child's parent reference
  (\<open>_category\<close>, \<open>_area\<close>) is the address of a parent or \<open>None\<close>. The operations carry
  the prefix \<open>obj\<close>; an operation on an address without an object leaves the store as it
  is.
\<close>

type_synonym addr = nat

record id_object =
  io_code :: str
  io_name :: str
  io_section :: bool
  io_category :: "addr option"

record cat_object =
  co_code :: str
  co_name :: str
  co_ids :: "(str, addr) dict"
  co_area :: "addr option"

record area_object =
  ao_code :: str
  ao_name :: str
  ao_categories :: "(str, addr) dict"

record store =
  id_store :: "addr \<Rightarrow> id_object option"
  cat_store :: "addr \<Rightarrow> cat_object option"
  area_store :: "addr \<Rightarrow> area_object option"

text \<open>\<open>d.pop(k, None)\<close>: the dictionary without the key, and the value it had.\<close>

definition dict_pop :: "'k \<Rightarrow> ('k, 'v) dict \<Rightarrow> ('k, 'v) dict \<times> 'v option" where
  "dict_pop k d = (filter (\<lambda>(k', v). k' \<noteq> k) d, map_of d k)"

text \<open>\<open>JDCategory.add_id\<close>: \<open>jd_id._category = self; self._ids[jd_id.code] = jd_id\<close>\<close>

definition obj_add_id :: "addr \<Rightarrow> addr \<Rightarrow> store \<Rightarrow> store" where
  "obj_add_id self jd_id s =
     (case (cat_store s self, id_store s jd_id) of
        (Some cat, Some obj) \<Rightarrow>
          s\<lparr>id_store := (id_store s)(jd_id \<mapsto> obj\<lparr>io_category := Some self\<rparr>),
            cat_store := (cat_store s)(self \<mapsto> cat\<lparr>co_ids := dict_set (io_code obj) jd_id (co_ids cat)\<rparr>)\<rparr>
      | _ \<Rightarrow> s)"

text \<open>
  \<open>JDCategory.remove_id\<close>. A \<open>JDId\<close> has neither \<open>__bool__\<close> nor \<open>__len__\<close>, so
  \<open>if jd_id:\<close> holds for every Id that was popped.
\<close>

definition obj_remove_id :: "addr \<Rightarrow> str \<Rightarrow> store \<Rightarrow> store \<times> addr option" where
  "obj_remove_id self code s =
     (case cat_store s self of
        None \<Rightarrow> (s, None)
      | Some cat \<Rightarrow>
          (case dict_pop code (co_ids cat) of
             (rest, None) \<Rightarrow> (s, None)
           | (rest, Some jd_id) \<Rightarrow>
               (s\<lparr>cat_store := (cat_store s)(self \<mapsto> cat\<lparr>co_ids := rest\<rparr>),
                  id_store :=
                    (case id_store s jd_id of
                       None \<Rightarrow> id_store s
                     | Some obj \<Rightarrow> (id_store s)(jd_id \<mapsto> obj\<lparr>io_category := None\<rparr>))\<rparr>,
                Some jd_id)))"

text \<open>\<open>JDArea.add_category\<close>\<close>

definition obj_add_category :: "addr \<Rightarrow> addr \<Rightarrow> store \<Rightarrow> store" where
  "obj_add_category self category s =
     (case (area_store s self, cat_store s category) of
        (Some area, Some cat) \<Rightarrow>
          s\<lparr>cat_store := (cat_store s)(category \<mapsto> cat\<lparr>co_area := Some self\<rparr>),
            area_store :=
              (area_store s)(self \<mapsto>
                 area\<lparr>ao_categories := dict_set (co_code cat) category (ao_categories area)\<rparr>)\<rparr>
      | _ \<Rightarrow> s)"

text \<open>
  \<open>JDArea.remove_category\<close>. A \<open>JDCategory\<close> has \<open>__len__\<close>, the number of its Ids, so
  \<open>if cat:\<close> holds only for a category that has an Id.
\<close>

definition obj_remove_category :: "addr \<Rightarrow> str \<Rightarrow> store \<Rightarrow> store \<times> addr option" where
  "obj_remove_category self code s =
     (case area_store s self of
        None \<Rightarrow> (s, None)
      | Some area \<Rightarrow>
          (case dict_pop code (ao_categories area) of
             (rest, None) \<Rightarrow> (s, None)
           | (rest, Some category) \<Rightarrow>
               (s\<lparr>area_store := (area_store s)(self \<mapsto> area\<lparr>ao_categories := rest\<rparr>),
                  cat_store :=
                    (case cat_store s category of
                       None \<Rightarrow> cat_store s
                     | Some cat \<Rightarrow>
                         if co_ids cat \<noteq> []
                         then (cat_store s)(category \<mapsto> cat\<lparr>co_area := None\<rparr>)
                         else cat_store s)\<rparr>,
                Some category)))"

text \<open>Sequences of the four operations.\<close>

datatype operation =
  AddId addr addr | RemoveId addr str | AddCategory addr addr | RemoveCategory addr str

fun apply_operation :: "operation \<Rightarrow> store \<Rightarrow> store" where
  "apply_operation (AddId self jd_id) s = obj_add_id self jd_id s"
| "apply_operation (RemoveId self code) s = fst (obj_remove_id self code s)"
| "apply_operation (AddCategory self category) s = obj_add_category self category s"
| "apply_operation (RemoveCategory self code) s = fst (obj_remove_category self code s)"

fun run :: "operation list \<Rightarrow> store \<Rightarrow> store" where
  "run [] s = s"
| "run (operation # operations) s = run operations (apply_operation operation s)"

text \<open>
  A category holds an Id when the Id's address is a value of its mapping, and likewise
  an area a category. Ownership is exclusive when no child is held by two parents.
\<close>

definition holds_id :: "store \<Rightarrow> addr \<Rightarrow> addr \<Rightarrow> bool" where
  "holds_id s category jd_id =
     (case cat_store s category of None \<Rightarrow> False | Some cat \<Rightarrow> jd_id \<in> snd ` set (co_ids cat))"

definition holds_category :: "store \<Rightarrow> addr \<Rightarrow> addr \<Rightarrow> bool" where
  "holds_category s area category =
     (case area_store s area of
        None \<Rightarrow> False
      | Some obj \<Rightarrow> category \<in> snd ` set (ao_categories obj))"

definition exclusive :: "store \<Rightarrow> bool" where
  "exclusive s =
     ((\<forall>jd_id c1 c2. holds_id s c1 jd_id \<and> holds_id s c2 jd_id \<longrightarrow> c1 = c2) \<and>
      (\<forall>category a1 a2. holds_category s a1 category \<and> holds_category s a2 category \<longrightarrow> a1 = a2))"

text \<open>
  An operation is a hand-over when it is a removal, or adds a child that no other parent
  holds at that moment; a sequence, when each of its operations is one in the store it is
  applied to.
\<close>

fun hand_over :: "store \<Rightarrow> operation \<Rightarrow> bool" where
  "hand_over s (AddId self jd_id) = (\<forall>c. holds_id s c jd_id \<longrightarrow> c = self)"
| "hand_over s (AddCategory self category) = (\<forall>a. holds_category s a category \<longrightarrow> a = self)"
| "hand_over s (RemoveId self code) = True"
| "hand_over s (RemoveCategory self code) = True"

fun hand_overs :: "store \<Rightarrow> operation list \<Rightarrow> bool" where
  "hand_overs s [] = True"
| "hand_overs s (operation # operations) =
     (hand_over s operation \<and> hand_overs (apply_operation operation s) operations)"

section \<open>Example states\<close>

text \<open>
  Small categories and indexes on which the theorems below are run. \<open>9632\<close> is the section
  glyph U+25A0.
\<close>

definition mk_id :: "string \<Rightarrow> string \<Rightarrow> bool \<Rightarrow> str \<times> JDId" where
  "mk_id code title sec =
     (S code, \<lparr>jdid_code = S code,
               jdid_name = S code @ (if sec then [32, 9632] else []) @ S '' '' @ S title,
               jdid_section = sec\<rparr>)"

definition mk_category :: "string \<Rightarrow> string \<Rightarrow> (str \<times> JDId) list \<Rightarrow> str \<times> JDCategory" where
  "mk_category code title entries =
     (S code, \<lparr>jdcat_code = S code, jdcat_name = S code @ S '' '' @ S title, jdcat_ids = entries\<rparr>)"

definition mk_area :: "string \<Rightarrow> string \<Rightarrow> (str \<times> JDCategory) list \<Rightarrow> str \<times> JDArea" where
  "mk_area code title cats =
     (S code, \<lparr>jdarea_code = S code, jdarea_name = S code @ S '' '' @ S title,
               jdarea_categories = cats\<rparr>)"

text \<open>Category 11 with the Ids 11.00 and 11.01.\<close>

definition cat_two_used :: JDCategory where
  "cat_two_used =
     snd (mk_category ''11'' ''Finance'' [mk_id ''11.00'' ''Inbox'' False, mk_id ''11.01'' ''Bank'' False])"

text \<open>Category 11 whose only Id is the section-flagged 11.15.\<close>

definition cat_section_15 :: JDCategory where
  "cat_section_15 = snd (mk_category ''11'' ''Finance'' [mk_id ''11.15'' ''Taxes'' True])"

text \<open>Category 11 whose only Id is the section-flagged 11.00, and the index that holds it.\<close>

definition cat_section_00 :: JDCategory where
  "cat_section_00 = snd (mk_category ''11'' ''Finance'' [mk_id ''11.00'' ''System'' True])"

definition index_section_00 :: JDex where
  "index_section_00 = [mk_area ''10-19'' ''Life admin'' [(S ''11'', cat_section_00)]]"




text \<open>
  An index of two areas: \<open>10-19 Life admin\<close> with the category \<open>11 Finance\<close> and its
  Ids \<open>11.01 Inbox\<close> and the section \<open>11.10\<close>, and \<open>20-29  Work\<close> (two spaces) without
  categories; and the directories it was scanned from.
\<close>

definition id_inbox :: JDId where
  "id_inbox = snd (mk_id ''11.01'' ''Inbox'' False)"

definition id_taxes :: JDId where
  "id_taxes = snd (mk_id ''11.10'' ''Taxes'' True)"

definition cat_finance :: JDCategory where
  "cat_finance =
     \<lparr>jdcat_code = S ''11'', jdcat_name = S ''11 Finance'',
      jdcat_ids = [(S ''11.01'', id_inbox), (S ''11.10'', id_taxes)]\<rparr>"

definition area_life :: JDArea where
  "area_life =
     \<lparr>jdarea_code = S ''10-19'', jdarea_name = S ''10-19 Life admin'',
      jdarea_categories = [(S ''11'', cat_finance)]\<rparr>"

definition area_work :: JDArea where
  "area_work =
     \<lparr>jdarea_code = S ''20-29'', jdarea_name = S ''20-29  Work'', jdarea_categories = []\<rparr>"

definition index_life :: JDex where
  "index_life = [(S ''10-19'', area_life), (S ''20-29'', area_work)]"

definition root_life :: node where
  "root_life =
     Dir [(S ''20-29  Work'', Dir []),
          (S ''10-19 Life admin'',
           Dir [(S ''11 Finance'',
                 Dir [(S ''11.10'' @ [32, 9632] @ S '' Taxes'', Dir []),
                      (S ''11.01 Inbox'', Dir [])])])]"

text \<open>
  An index in which the areas \<open>10-19\<close> and \<open>20-29\<close> both hold a category with the code
  \<open>11\<close>.
\<close>

definition cat_dup_first :: JDCategory where
  "cat_dup_first = \<lparr>jdcat_code = S ''11'', jdcat_name = S ''11 Finance'', jdcat_ids = []\<rparr>"

definition cat_dup_second :: JDCategory where
  "cat_dup_second = \<lparr>jdcat_code = S ''11'', jdcat_name = S ''11 Money'', jdcat_ids = []\<rparr>"

definition area_dup_first :: JDArea where
  "area_dup_first =
     \<lparr>jdarea_code = S ''10-19'', jdarea_name = S ''10-19 Life admin'',
      jdarea_categories = [(S ''11'', cat_dup_first)]\<rparr>"

definition area_dup_second :: JDArea where
  "area_dup_second =
     \<lparr>jdarea_code = S ''20-29'', jdarea_name = S ''20-29 Work'',
      jdarea_categories = [(S ''11'', cat_dup_second)]\<rparr>"

definition index_dup :: JDex where
  "index_dup = [(S ''10-19'', area_dup_first), (S ''20-29'', area_dup_second)]"

text \<open>
  An index whose only area has the code \<open>11\<close>, as has its only category; both names
  have seven code points.
\<close>

definition cat_tie :: JDCategory where
  "cat_tie = \<lparr>jdcat_code = S ''11'', jdcat_name = S ''11 Work'', jdcat_ids = []\<rparr>"

definition area_tie :: JDArea where
  "area_tie =
     \<lparr>jdarea_code = S ''11'', jdarea_name = S ''11 Home'',
      jdarea_categories = [(S ''11'', cat_tie)]\<rparr>"

definition index_tie :: JDex where
  "index_tie = [(S ''11'', area_tie)]"

text \<open>
  A root whose status cannot be read (\<open>jd_root.exists()\<close> raises), and a root directory
  that cannot be listed.
\<close>

definition root_unreadable :: "node option" where
  "root_unreadable = Some (NoStat Denied)"

definition root_unlistable :: "node option" where
  "root_unlistable = Some (NoList Denied)"

text \<open>The directories of \<open>root_life\<close> after \<open>11 Finance\<close> was renamed to \<open>12 Money\<close>.\<close>

definition area_dir_renamed :: node where
  "area_dir_renamed = Dir [(S ''12 Money'', Dir [(S ''11.01 Inbox'', Dir [])])]"

definition root_renamed :: node where
  "root_renamed = Dir [(S ''10-19 Life admin'', area_dir_renamed)]"

text \<open>
  A store with the area 0 (\<open>10-19\<close>), the categories 0 (\<open>11\<close>) and 1 (\<open>12\<close>), both
  without Ids and not yet in an area, and the Id 0 (\<open>11.01\<close>) that is in no category.
\<close>

definition store_fresh :: store where
  "store_fresh =
     \<lparr>id_store =
        Map.empty(0 \<mapsto> \<lparr>io_code = S ''11.01'', io_name = S ''11.01 Inbox'', io_section = False,
                         io_category = None\<rparr>),
      cat_store =
        Map.empty(0 \<mapsto> \<lparr>co_code = S ''11'', co_name = S ''11 Finance'', co_ids = [], co_area = None\<rparr>,
                  1 \<mapsto> \<lparr>co_code = S ''12'', co_name = S ''12 Health'', co_ids = [], co_area = None\<rparr>),
      area_store =
        Map.empty(0 \<mapsto> \<lparr>ao_code = S ''10-19'', ao_name = S ''10-19 Life admin'',
                         ao_categories = []\<rparr>)\<rparr>"

chapter \<open>Properties\<close>

lemma split_on_nonempty: "split_on sep s \<noteq> []"
  by (induction s) (auto split: list.splits)

section \<open>The slot allocator\<close>



lemma collect_Inr:
  "collect f xs = Inr ys \<Longrightarrow> list_all2 (\<lambda>x y. f x = Inr y) xs ys"
  by (induction xs arbitrary: ys) (auto split: sum.splits)

lemma collect_set:
  assumes "collect f xs = Inr ys"
  shows "y \<in> set ys \<longleftrightarrow> (\<exists>x\<in>set xs. f x = Inr y)"
proof -
  from collect_Inr [OF assms] have l: "list_all2 (\<lambda>x y. f x = Inr y) xs ys" .
  show ?thesis
  proof
    assume "y \<in> set ys"
    then obtain j where "j < length ys" "ys ! j = y" by (auto simp: in_set_conv_nth)
    with l have "f (xs ! j) = Inr y" "j < length xs"
      by (auto simp: list_all2_conv_all_nth)
    then show "\<exists>x\<in>set xs. f x = Inr y" by (metis nth_mem)
  next
    assume "\<exists>x\<in>set xs. f x = Inr y"
    then obtain j where "j < length xs" "f (xs ! j) = Inr y" by (auto simp: in_set_conv_nth)
    with l have "ys ! j = y" "j < length ys"
      by (auto simp: list_all2_conv_all_nth)
    then show "y \<in> set ys" by (metis nth_mem)
  qed
qed

lemma set_cat_iter: "set (cat_iter cat) = snd ` set (jdcat_ids cat)"
  by (simp add: cat_iter_def sorted_values_def)




lemmas example_defs =
  mk_id_def mk_category_def mk_area_def cat_two_used_def cat_section_15_def cat_section_00_def
  index_section_00_def

lemmas read_defs =
  used_slots_def section_decades_def section_ids_def cat_iter_def sorted_values_def
  id_decade_def id_number_def py_int_def is_ascii_digit_def

lemmas loop_defs = slot_step_def legacy_step_def fmt_id_def fmt02d_def code_decade_def
  py_int_def is_ascii_digit_def upt_conv_Cons

text \<open>
  C1. \<open>get_available_id_slots\<close> on category 11 whose only Id is the section-flagged
  11.15, with limit 3: no section-flagged Id has the number 10, and the result still holds
  11.10, the first unused number of decade 10, besides the three slots of decade 0.
  \<open>section_decades\<close> takes the decade of every section-flagged Id, where
  \<open>JDId.section_header\<close> and the legacy \<open>get_available_ids\<close> ask for a section-flagged
  Id at the decade's own number.
\<close>

theorem typed_slots_section_15:
  "get_available_id_slots cat_section_15 3 =
     Inr [S ''11.00'', S ''11.01'', S ''11.02'', S ''11.10'']"
proof -
  have u: "used_slots cat_section_15 = Inr {15}"
    by (simp add: example_defs read_defs)
  have s: "section_decades cat_section_15 = Inr {10}"
    by (simp add: example_defs read_defs)
  have c: "jdcat_code cat_section_15 = S ''11''"
    by (simp add: example_defs)
  show ?thesis
    unfolding get_available_id_slots_def u s c sum.case by (simp add: loop_defs)
qed

text \<open>
  C5. The typed and the legacy allocator on the same category, 11 whose only Id is the
  section-flagged 11.00, with limit 3: the typed one returns four slots of decade 0
  (the decade of the section Id counts as a section decade once the limit is reached),
  the legacy one returns three.
\<close>

theorem typed_and_legacy_slots_section_00:
  "get_available_id_slots cat_section_00 3 =
     Inr [S ''11.01'', S ''11.02'', S ''11.03'', S ''11.04''] \<and>
   get_available_ids (S ''11'') (to_dict index_section_00) 3 =
     Inr [S ''11.01'', S ''11.02'', S ''11.03'']"
proof -
  have u: "used_slots cat_section_00 = Inr {0}"
    by (simp add: example_defs read_defs)
  have s: "section_decades cat_section_00 = Inr {0}"
    by (simp add: example_defs read_defs)
  have c: "jdcat_code cat_section_00 = S ''11''"
    by (simp add: example_defs)
  have typed: "get_available_id_slots cat_section_00 3 =
     Inr [S ''11.01'', S ''11.02'', S ''11.03'', S ''11.04'']"
    unfolding get_available_id_slots_def u s c sum.case by (simp add: loop_defs)
  have f: "find_category (S ''11'') (to_dict index_section_00) = Some (cat_to_dict cat_section_00)"
    by (simp add: find_category_def to_dict_def area_to_dict_def index_section_00_def mk_area_def)
  have n: "collect_numbers (c_ids (cat_to_dict cat_section_00)) = Inr ({}, {0})"
    by (simp add: cat_to_dict_def id_to_dict_def example_defs py_int_def is_ascii_digit_def)
  have legacy: "get_available_ids (S ''11'') (to_dict index_section_00) 3 =
     Inr [S ''11.01'', S ''11.02'', S ''11.03'']"
    unfolding get_available_ids_def f option.case n sum.case prod.case by (simp add: loop_defs)
  from typed legacy show ?thesis by (intro conjI)
qed

text \<open>
  Where the two allocators do agree. The numbers that the legacy loop collects from the
  dictionary form of a category are the numbers of \<open>used_slots\<close>, so \<open>get_next_id\<close>
  and \<open>get_next_available_id\<close> return the same for a category that the legacy index
  holds in its dictionary form.
\<close>

lemma collect_numbers_typed:
  assumes "\<forall>(k, i) \<in> set xs. k = jdid_code i"
  shows "(case collect id_number (map snd xs) of
            Inl e \<Rightarrow> collect_numbers (map (\<lambda>(code, jd_id). (code, id_to_dict jd_id)) xs) = Inl e
          | Inr ns \<Rightarrow>
              (\<exists>existing sections.
                 collect_numbers (map (\<lambda>(code, jd_id). (code, id_to_dict jd_id)) xs) =
                   Inr (existing, sections) \<and>
                 existing \<union> sections = set ns))"
  using assms
proof (induction xs)
  case Nil
  then show ?case by simp
next
  case (Cons x xs)
  obtain k i where x: "x = (k, i)" by (cases x)
  with Cons.prems have k: "k = jdid_code i" by simp
  from Cons have IH: "(case collect id_number (map snd xs) of
            Inl e \<Rightarrow> collect_numbers (map (\<lambda>(code, jd_id). (code, id_to_dict jd_id)) xs) = Inl e
          | Inr ns \<Rightarrow>
              (\<exists>existing sections.
                 collect_numbers (map (\<lambda>(code, jd_id). (code, id_to_dict jd_id)) xs) =
                   Inr (existing, sections) \<and>
                 existing \<union> sections = set ns))"
    by simp
  show ?case
  proof (cases "id_number i")
    case (Inl e)
    then show ?thesis by (simp add: x k id_number_def)
  next
    case (Inr n)
    then have p: "(case split_on 46 (jdid_code i) of _ # nn # _ \<Rightarrow> py_int nn | _ \<Rightarrow> Inl IndexError) = Inr n"
      by (simp add: id_number_def)
    show ?thesis
    proof (cases "collect id_number (map snd xs)")
      case (Inl e)
      with IH Inr p show ?thesis by (simp add: x k)
    next
      case ns: (Inr ns)
      with IH obtain existing sections where
        c: "collect_numbers (map (\<lambda>(code, jd_id). (code, id_to_dict jd_id)) xs) = Inr (existing, sections)"
        and u: "existing \<union> sections = set ns"
        by auto
      show ?thesis
        using Inr p ns c u by (auto simp: x k id_to_dict_def)
    qed
  qed
qed

lemma next_id_agrees:
  assumes "\<forall>(k, i) \<in> set (jdcat_ids cat). k = jdid_code i"
    and "find_category (jdcat_code cat) index = Some (cat_to_dict cat)"
  shows "get_next_id (jdcat_code cat) index = get_next_available_id cat"
proof -
  let ?xs = "sort_key fst (jdcat_ids cat)"
  have keys: "\<forall>(k, i) \<in> set ?xs. k = jdid_code i"
    using assms(1) by simp
  note rel = collect_numbers_typed [OF keys]
  have ids: "c_ids (cat_to_dict cat) = map (\<lambda>(code, jd_id). (code, id_to_dict jd_id)) ?xs"
    by (simp add: cat_to_dict_def)
  have iter: "cat_iter cat = map snd ?xs"
    by (simp add: cat_iter_def sorted_values_def)
  show ?thesis
  proof (cases "collect id_number (map snd ?xs)")
    case (Inl e)
    with rel show ?thesis
      by (simp add: get_next_id_def assms(2) ids get_next_available_id_def used_slots_def iter)
  next
    case (Inr ns)
    with rel obtain existing sections where
      c: "collect_numbers (map (\<lambda>(code, jd_id). (code, id_to_dict jd_id)) ?xs) = Inr (existing, sections)"
      and u: "existing \<union> sections = set ns"
      by auto
    have "(\<lambda>num. num \<notin> existing \<and> num \<notin> sections) = (\<lambda>num. num \<notin> set ns)"
      using u by auto
    then show ?thesis
      using Inr c
      by (simp add: get_next_id_def assms(2) ids get_next_available_id_def used_slots_def iter)
  qed
qed

text \<open>The code of a scanned Id always reads as a number below 100.\<close>

lemma scanned_code_number:
  assumes "ID_PATTERN name = Some code"
  shows "\<exists>n<100. id_number \<lparr>jdid_code = code, jdid_name = name, jdid_section = sec\<rparr> = Inr n"
proof -
  from assms obtain a b d e where code: "code = [a, b, 46, d, e]"
    and dig: "is_ascii_digit a" "is_ascii_digit b" "is_ascii_digit d" "is_ascii_digit e"
    by (auto simp: ID_PATTERN_def split: list.splits if_splits)
  from dig have ne: "a \<noteq> 46" "b \<noteq> 46" "d \<noteq> 46" "e \<noteq> 46"
    by (auto simp: is_ascii_digit_def)
  then have s: "split_on 46 code = [[a, b], [d, e]]"
    by (simp add: code)
  have "10 * (d - 48) + (e - 48) < 100"
    using dig by (auto simp: is_ascii_digit_def)
  then show ?thesis
    using dig by (simp add: id_number_def s py_int_def)
qed

text \<open>
  The loop of \<open>get_available_id_slots\<close> decade by decade: in the decade 0 it takes the
  first \<open>limit\<close> free numbers, and in a later decade that is among the section decades
  the first free number. When every section-flagged Id sits on a decade number other than
  0, the section decades are the section headers and the typed allocator returns the
  slots in the words of the specification (\<open>slots_by_sections\<close>).
\<close>

lemma slot_step_apply:
  "slot_step code used sections limit (av, ci, cov) num =
     (if num \<in> used then (av, ci, cov)
      else if num div 10 * 10 = 0 \<and> ci < limit then (av @ [fmt_id code num], ci + 1, cov)
      else if num div 10 * 10 \<in> sections \<and> num div 10 * 10 \<notin> cov
      then (av @ [fmt_id code num], ci, insert (num div 10 * 10) cov)
      else (av, ci, cov))"
  by (simp add: slot_step_def Let_def)

lemma typed_decade_zero:
  assumes "0 \<notin> sections" and "\<forall>n \<in> set xs. n < 10"
  shows "foldl (slot_step code used sections limit) (av, ci, cov) xs =
         (av @ map (fmt_id code) (take (nat (limit - ci)) (filter (\<lambda>n. n \<notin> used) xs)),
          ci + int (length (take (nat (limit - ci)) (filter (\<lambda>n. n \<notin> used) xs))),
          cov)"
  using assms(2)
proof (induction xs arbitrary: av ci)
  case Nil
  then show ?case by simp
next
  case (Cons x xs)
  then have x: "x div 10 * 10 = 0" by simp
  from Cons have IH: "\<And>av ci. foldl (slot_step code used sections limit) (av, ci, cov) xs =
         (av @ map (fmt_id code) (take (nat (limit - ci)) (filter (\<lambda>n. n \<notin> used) xs)),
          ci + int (length (take (nat (limit - ci)) (filter (\<lambda>n. n \<notin> used) xs))),
          cov)"
    by simp
  show ?case
  proof (cases "x \<in> used")
    case True
    then show ?thesis by (simp add: slot_step_apply IH)
  next
    case False
    show ?thesis
    proof (cases "ci < limit")
      case True
      then have "nat (limit - ci) = Suc (nat (limit - (ci + 1)))"
        by arith
      then obtain m where m: "nat (limit - ci) = Suc m" "nat (limit - (ci + 1)) = m"
        by blast
      with False True x show ?thesis
        by (simp add: slot_step_apply IH assms(1))
    next
      case False
      then have z: "nat (limit - ci) = 0" by simp
      from False \<open>x \<notin> used\<close> x show ?thesis
        by (simp add: slot_step_apply IH assms(1) z)
    qed
  qed
qed


lemma typed_decade_block:
  assumes "d \<noteq> 0" and "\<forall>n \<in> set xs. n div 10 * 10 = d"
  shows "foldl (slot_step code used sections limit) (av, ci, cov) xs =
         (if d \<in> sections \<and> d \<notin> cov
          then (case filter (\<lambda>n. n \<notin> used) xs of
                  [] \<Rightarrow> (av, ci, cov)
                | n # ns \<Rightarrow> (av @ [fmt_id code n], ci, insert d cov))
          else (av, ci, cov))"
  using assms(2)
proof (induction xs arbitrary: av cov)
  case Nil
  then show ?case by simp
next
  case (Cons x xs)
  then have x: "x div 10 * 10 = d" by simp
  from Cons have IH: "\<And>av cov. foldl (slot_step code used sections limit) (av, ci, cov) xs =
         (if d \<in> sections \<and> d \<notin> cov
          then (case filter (\<lambda>n. n \<notin> used) xs of
                  [] \<Rightarrow> (av, ci, cov)
                | n # ns \<Rightarrow> (av @ [fmt_id code n], ci, insert d cov))
          else (av, ci, cov))"
    by simp
  show ?case
    using assms(1) by (simp add: slot_step_apply x IH)
qed

lemma decade_of_block:
  assumes "d mod 10 = 0" and "d \<le> n" and "n < d + 10"
  shows "n div 10 * 10 = (d::nat)"
proof -
  from assms(1) have "10 dvd d" by (simp add: dvd_eq_mod_eq_0)
  then obtain q where q: "d = 10 * q" by (auto simp: dvd_def)
  from assms(2) obtain k where k: "n = d + k" by (metis le_iff_add)
  with assms(3) have "k < 10" by simp
  then have "(10 * q + k) div 10 = q" by simp
  then show ?thesis by (simp add: q k)
qed

lemma typed_decade_block_upt:
  assumes "d \<noteq> 0" and "d mod 10 = 0" and "d \<notin> cov"
  shows "foldl (slot_step code used sections limit) (av, ci, cov) [d..<d + 10] =
         (av @ map (fmt_id code)
                 (if d \<in> sections then take 1 (filter (\<lambda>n. n \<notin> used) [d..<d + 10]) else []),
          ci,
          if d \<in> sections \<and> filter (\<lambda>n. n \<notin> used) [d..<d + 10] \<noteq> [] then insert d cov else cov)"
proof -
  have dec: "\<forall>n \<in> set [d..<d + 10]. n div 10 * 10 = d"
    using decade_of_block [OF assms(2)] by simp
  show ?thesis
  proof (cases "filter (\<lambda>n. n \<notin> used) [d..<d + 10]")
    case Nil
    then show ?thesis
      unfolding typed_decade_block [OF assms(1) dec] by simp
  next
    case (Cons n ns)
    then show ?thesis
      unfolding typed_decade_block [OF assms(1) dec] using assms(3) by simp
  qed
qed


lemma typed_decade_blocks:
  assumes "distinct ds" and "\<forall>d \<in> set ds. d \<noteq> 0 \<and> d mod 10 = 0" and "cov \<inter> set ds = {}"
  shows "\<exists>cov'. foldl (slot_step code used sections limit) (av, ci, cov)
                  (concat (map (\<lambda>d. [d..<d + 10]) ds)) =
           (av @ map (fmt_id code)
                   (concat (map (\<lambda>d. if d \<in> sections
                                       then take 1 (filter (\<lambda>n. n \<notin> used) [d..<d + 10]) else [])
                              ds)),
            ci, cov') \<and> cov' \<subseteq> cov \<union> set ds"
  using assms
proof (induction ds arbitrary: av cov)
  case Nil
  then show ?case by simp
next
  case (Cons d ds)
  from Cons.prems have d: "d \<noteq> 0" "d mod 10 = 0" "d \<notin> cov" "d \<notin> set ds" by auto
  let ?free = "filter (\<lambda>n. n \<notin> used) [d..<d + 10]"
  define av1 where "av1 = av @ map (fmt_id code) (if d \<in> sections then take 1 ?free else [])"
  define cov1 where "cov1 = (if d \<in> sections \<and> ?free \<noteq> [] then insert d cov else cov)"
  have block: "foldl (slot_step code used sections limit) (av, ci, cov) [d..<d + 10] = (av1, ci, cov1)"
    unfolding av1_def cov1_def by (rule typed_decade_block_upt [OF d(1) d(2) d(3)])
  have c1: "cov1 \<subseteq> insert d cov"
    unfolding cov1_def by (simp add: subset_insertI)
  with Cons.prems(3) d(4) have disj: "cov1 \<inter> set ds = {}"
    by auto
  from Cons.prems have "distinct ds" "\<forall>d \<in> set ds. d \<noteq> 0 \<and> d mod 10 = 0"
    by simp_all
  from Cons.IH [OF this disj, of av1]
  obtain cov' where rest: "foldl (slot_step code used sections limit) (av1, ci, cov1)
                  (concat (map (\<lambda>d. [d..<d + 10]) ds)) =
           (av1 @ map (fmt_id code)
                   (concat (map (\<lambda>d. if d \<in> sections
                                       then take 1 (filter (\<lambda>n. n \<notin> used) [d..<d + 10]) else [])
                              ds)),
            ci, cov')" and sub: "cov' \<subseteq> cov1 \<union> set ds"
    by blast
  from sub c1 have "cov' \<subseteq> cov \<union> set (d # ds)"
    by auto
  moreover have "foldl (slot_step code used sections limit) (av, ci, cov)
                  (concat (map (\<lambda>d. [d..<d + 10]) (d # ds))) =
           (av @ map (fmt_id code)
                   (concat (map (\<lambda>d. if d \<in> sections
                                       then take 1 (filter (\<lambda>n. n \<notin> used) [d..<d + 10]) else [])
                              (d # ds))),
            ci, cov')"
  proof -
    have "foldl (slot_step code used sections limit) (av, ci, cov)
            (concat (map (\<lambda>d. [d..<d + 10]) (d # ds))) =
          foldl (slot_step code used sections limit) (av1, ci, cov1)
            (concat (map (\<lambda>d. [d..<d + 10]) ds))"
      by (simp only: list.map concat.simps foldl_append block)
    also note rest
    also have "av1 @ map (fmt_id code)
                   (concat (map (\<lambda>d. if d \<in> sections
                                       then take 1 (filter (\<lambda>n. n \<notin> used) [d..<d + 10]) else [])
                              ds)) =
               av @ map (fmt_id code)
                   (concat (map (\<lambda>d. if d \<in> sections
                                       then take 1 (filter (\<lambda>n. n \<notin> used) [d..<d + 10]) else [])
                              (d # ds)))"
      unfolding av1_def by (simp only: list.map concat.simps map_append append_assoc)
    finally show ?thesis .
  qed
  ultimately show ?case by blast
qed


lemma hundred_by_decades:
  "[0..<100] = [0..<10] @ concat (map (\<lambda>d. [d..<d + 10]) [10, 20, 30, 40, 50, 60, 70, 80, 90])"
  by (simp add: upt_conv_Cons)

lemma typed_loop_by_sections:
  assumes "0 \<notin> sections"
  shows "sort (fst (foldl (slot_step code used sections limit) ([], 0, {}) [0..<100])) =
         slots_by_sections code used sections limit"
proof -
  let ?zero = "take (nat limit) (filter (\<lambda>n. n \<notin> used) [0..<10])"
  have z: "foldl (slot_step code used sections limit) ([], 0, {}) [0..<10] =
           (map (fmt_id code) ?zero, int (length ?zero), {})"
    using typed_decade_zero [OF assms, of "[0..<10]" code used limit "[]" 0 "{}"]
    by (simp del: upt_rec_numeral)
  have "\<exists>cov'. foldl (slot_step code used sections limit) (map (fmt_id code) ?zero, int (length ?zero), {})
                  (concat (map (\<lambda>d. [d..<d + 10]) [10, 20, 30, 40, 50, 60, 70, 80, 90])) =
           (map (fmt_id code) ?zero @ map (fmt_id code)
                   (concat (map (\<lambda>d. if d \<in> sections
                                       then take 1 (filter (\<lambda>n. n \<notin> used) [d..<d + 10]) else [])
                              [10, 20, 30, 40, 50, 60, 70, 80, 90])),
            int (length ?zero), cov') \<and> cov' \<subseteq> {} \<union> set [10, 20, 30, 40, 50, 60, 70, 80, 90]"
    by (rule typed_decade_blocks) (simp_all del: upt_rec_numeral)
  then obtain cov' where
    "foldl (slot_step code used sections limit) (map (fmt_id code) ?zero, int (length ?zero), {})
                  (concat (map (\<lambda>d. [d..<d + 10]) [10, 20, 30, 40, 50, 60, 70, 80, 90])) =
           (map (fmt_id code) ?zero @ map (fmt_id code)
                   (concat (map (\<lambda>d. if d \<in> sections
                                       then take 1 (filter (\<lambda>n. n \<notin> used) [d..<d + 10]) else [])
                              [10, 20, 30, 40, 50, 60, 70, 80, 90])),
            int (length ?zero), cov')"
    by blast
  then show ?thesis
    unfolding hundred_by_decades foldl_append z slots_by_sections_def
    by (simp only: fst_conv map_append)
qed


lemma collect_total:
  "\<forall>x \<in> set xs. \<exists>y. f x = Inr y \<Longrightarrow> \<exists>ys. collect f xs = Inr ys"
  by (induction xs) auto

lemma collect_all_Inr:
  "collect f xs = Inr ys \<Longrightarrow> x \<in> set xs \<Longrightarrow> \<exists>y. f x = Inr y"
  by (induction xs arbitrary: ys) (auto split: sum.splits)

lemma section_decades_of_numbers:
  assumes "used_slots cat = Inr used"
  shows "section_decades cat = Inr ((\<lambda>n. n div 10 * 10) ` section_numbers cat)"
proof -
  from assms obtain ns where c: "collect id_number (cat_iter cat) = Inr ns"
    by (auto simp: used_slots_def split: sum.splits)
  have parse: "\<exists>n. id_number i = Inr n" if "i \<in> set (cat_iter cat)" for i
    using collect_all_Inr [OF c that] .
  have "\<exists>d. id_decade i = Inr d" if "i \<in> set (section_ids cat)" for i
  proof -
    from that have "i \<in> set (cat_iter cat)" by (simp add: section_ids_def)
    from parse [OF this] obtain n where "id_number i = Inr n" by blast
    then show ?thesis by (simp add: id_decade_def)
  qed
  then have "\<forall>i \<in> set (section_ids cat). \<exists>d. id_decade i = Inr d"
    by blast
  then obtain ds where d: "collect id_decade (section_ids cat) = Inr ds"
    using collect_total by blast
  have "set ds = (\<lambda>n. n div 10 * 10) ` section_numbers cat"
  proof (intro set_eqI iffI)
    fix x assume "x \<in> set ds"
    then obtain i where i: "i \<in> set (section_ids cat)" "id_decade i = Inr x"
      using collect_set [OF d, of x] by blast
    then obtain n where "id_number i = Inr n" "x = n div 10 * 10"
      by (auto simp: id_decade_def split: sum.splits)
    with i(1) show "x \<in> (\<lambda>n. n div 10 * 10) ` section_numbers cat"
      by (auto simp: section_numbers_def section_ids_def set_cat_iter)
  next
    fix x assume "x \<in> (\<lambda>n. n div 10 * 10) ` section_numbers cat"
    then obtain n i where "i \<in> snd ` set (jdcat_ids cat)" "jdid_section i" "id_number i = Inr n"
      "x = n div 10 * 10"
      by (auto simp: section_numbers_def)
    then have "i \<in> set (section_ids cat)" "id_decade i = Inr x"
      by (auto simp: section_ids_def set_cat_iter id_decade_def)
    then show "x \<in> set ds"
      using collect_set [OF d, of x] by blast
  qed
  with d show ?thesis by (simp add: section_decades_def)
qed

lemma typed_slots_on_decade_sections:
  assumes "used_slots cat = Inr used"
    and "\<forall>n \<in> section_numbers cat. n mod 10 = 0 \<and> n \<noteq> 0"
  shows "get_available_id_slots cat limit =
         Inr (slots_by_sections (jdcat_code cat) used (section_numbers cat) limit)"
proof -
  have "n div 10 * 10 = n" if "n \<in> section_numbers cat" for n
  proof -
    from assms(2) that have "n mod 10 = 0" by blast
    then show ?thesis by presburger
  qed
  then have same: "(\<lambda>n. n div 10 * 10) ` section_numbers cat = section_numbers cat"
    by force
  have zero: "0 \<notin> section_numbers cat"
    using assms(2) by auto
  show ?thesis
    unfolding get_available_id_slots_def assms(1) section_decades_of_numbers [OF assms(1)] same sum.case
    by (simp only: typed_loop_by_sections [OF zero])
qed

section \<open>Directory names and the scanner\<close>

lemma spaces_rest_head: "spaces_rest rest \<Longrightarrow> \<exists>c cs. rest = c # cs \<and> is_space c"
  by (cases rest) auto

lemma AREA_PATTERN_Some:
  "AREA_PATTERN name = Some code \<Longrightarrow>
     length code = 5 \<and> (\<exists>c cs. name = code @ c # cs \<and> is_space c)"
  by (auto simp: AREA_PATTERN_def split: list.splits if_splits dest: spaces_rest_head)

lemma CATEGORY_PATTERN_Some:
  "CATEGORY_PATTERN name = Some code \<Longrightarrow>
     length code = 2 \<and> (\<exists>c cs. name = code @ c # cs \<and> is_space c)"
  by (auto simp: CATEGORY_PATTERN_def split: list.splits if_splits dest: spaces_rest_head)

lemma ID_PATTERN_Some:
  "ID_PATTERN name = Some code \<Longrightarrow>
     length code = 5 \<and> (\<exists>c cs. name = code @ c # cs \<and> is_space c)"
  by (auto simp: ID_PATTERN_def split: list.splits if_splits dest: spaces_rest_head)

text \<open>
  C8 (as amended). At each tier, a directory name that the parsing step accepts is
  returned unchanged as the display name, and the returned code (five code points for an
  area or an Id, two for a category), followed by the white-space character that stands
  after it in the name, is a prefix of the directory name.
\<close>

theorem parse_keeps_name_and_code_prefix:
  "(parse_area name = Some (code, display) \<longrightarrow>
      display = name \<and> length code = 5 \<and> (\<exists>c cs. name = code @ c # cs \<and> is_space c)) \<and>
   (parse_category name = Some (code, display) \<longrightarrow>
      display = name \<and> length code = 2 \<and> (\<exists>c cs. name = code @ c # cs \<and> is_space c)) \<and>
   (parse_id name = Some (code, display, sec) \<longrightarrow>
      display = name \<and> length code = 5 \<and> (\<exists>c cs. name = code @ c # cs \<and> is_space c))"
  using AREA_PATTERN_Some [of name code] CATEGORY_PATTERN_Some [of name code]
    ID_PATTERN_Some [of name code]
  by (auto simp: parse_area_def parse_category_def parse_id_def)

text \<open>
  C8 as stated fails: the display name is the whole directory name, so the code, a space
  and the display name repeat the code and are not a prefix of the directory name.
\<close>

theorem parse_area_round_trip_counterexample:
  "parse_area (S ''10-19 Life admin'') = Some (S ''10-19'', S ''10-19 Life admin'') \<and>
   \<not> prefix (S ''10-19'' @ S '' '' @ S ''10-19 Life admin'') (S ''10-19 Life admin'')"
  by (simp add: parse_area_def AREA_PATTERN_def is_ascii_digit_def is_space_def)

text \<open>
  The three parsing steps on \<open>10-19 Life admin\<close>, \<open>11 Finance\<close> and \<open>11.01 Inbox\<close>.
\<close>

theorem parse_keeps_name_and_code_prefix_witness:
  "parse_area (S ''10-19 Life admin'') = Some (S ''10-19'', S ''10-19 Life admin'') \<and>
   parse_category (S ''11 Finance'') = Some (S ''11'', S ''11 Finance'') \<and>
   parse_id (S ''11.01 Inbox'') = Some (S ''11.01'', S ''11.01 Inbox'', False) \<and>
   (\<exists>c cs. S ''10-19 Life admin'' = S ''10-19'' @ c # cs \<and> is_space c)"
proof -
  have a: "parse_area (S ''10-19 Life admin'') = Some (S ''10-19'', S ''10-19 Life admin'')"
    by (simp add: parse_area_def AREA_PATTERN_def is_ascii_digit_def is_space_def)
  have c: "parse_category (S ''11 Finance'') = Some (S ''11'', S ''11 Finance'')"
    by (simp add: parse_category_def CATEGORY_PATTERN_def is_ascii_digit_def is_space_def)
  have i: "parse_id (S ''11.01 Inbox'') = Some (S ''11.01'', S ''11.01 Inbox'', False)"
    by (simp add: parse_id_def ID_PATTERN_def is_ascii_digit_def is_space_def)
  from parse_keeps_name_and_code_prefix
    [of "S ''10-19 Life admin''" "S ''10-19''" "S ''10-19 Life admin''"] a
  have "\<exists>c cs. S ''10-19 Life admin'' = S ''10-19'' @ c # cs \<and> is_space c"
    by blast
  with a c i show ?thesis by (intro conjI)
qed




lemma is_dir_OSError: "is_dir n = Inl e \<Longrightarrow> is_OSError e"
  by (cases n; cases e) (auto elim: raised.elims)

lemma iterdir_OSError: "iterdir p = Inl e \<Longrightarrow> is_OSError e"
  by (cases p rule: iterdir.cases; cases e) (auto elim: raised.elims)


















section \<open>Search\<close>

lemma occurs_in_Nil: "occurs_in needle [] \<longleftrightarrow> needle = []"
  by (simp add: occurs_in_def)

lemma occurs_in_Cons:
  "occurs_in needle (c # cs) \<longleftrightarrow> prefix needle (c # cs) \<or> occurs_in needle cs"
proof
  assume "occurs_in needle (c # cs)"
  then obtain b a where eq: "c # cs = b @ needle @ a"
    unfolding occurs_in_def by blast
  show "prefix needle (c # cs) \<or> occurs_in needle cs"
  proof (cases b)
    case Nil
    with eq have "c # cs = needle @ a" by simp
    then show ?thesis unfolding prefix_def by blast
  next
    case (Cons x b')
    with eq have "cs = b' @ needle @ a" by simp
    then show ?thesis unfolding occurs_in_def by blast
  qed
next
  assume "prefix needle (c # cs) \<or> occurs_in needle cs"
  then show "occurs_in needle (c # cs)"
  proof
    assume "prefix needle (c # cs)"
    then obtain a where "c # cs = needle @ a" unfolding prefix_def by blast
    then have "c # cs = [] @ needle @ a" by simp
    then show ?thesis unfolding occurs_in_def by blast
  next
    assume "occurs_in needle cs"
    then obtain b a where "cs = b @ needle @ a" unfolding occurs_in_def by blast
    then have "c # cs = (c # b) @ needle @ a" by simp
    then show ?thesis unfolding occurs_in_def by blast
  qed
qed

lemma contains_iff_occurs: "contains needle hay \<longleftrightarrow> occurs_in needle hay"
  by (induction hay) (simp_all add: occurs_in_Nil occurs_in_Cons del: prefix_Cons)


lemma matches_all_words_iff:
  "matches_all_words (item_name entry) (split_ws (lower query)) \<longleftrightarrow> word_match query entry"
  by (simp add: matches_all_words_def word_match_def list_all_iff contains_iff_occurs)

lemma score_match_scored:
  "(score_match (item_name entry) query, item_code entry, entry) = scored query entry"
  by (simp add: score_match_def scored_def contains_iff_occurs)

lemma rank_key_lambda: "(\<lambda>(score, code, item). (- score, code)) = rank_key"
  by (auto simp: rank_key_def fun_eq_iff)

lemma tier_areas:
  "map (\<lambda>area. (score_match (jdarea_name area) query, jdarea_code area, Area area))
     (filter (\<lambda>area. matches_all_words (jdarea_name area) (split_ws (lower query))) xs) =
   map (scored query) (filter (word_match query) (map Area xs))"
proof (induction xs)
  case Nil
  show ?case by simp
next
  case (Cons x xs)
  show ?case
    using Cons matches_all_words_iff [of "Area x" query] score_match_scored [of "Area x" query]
    by simp
qed

lemma tier_categories:
  "map (\<lambda>(area, cat). (score_match (jdcat_name cat) query, jdcat_code cat, Category cat))
     (filter (\<lambda>(area, cat). matches_all_words (jdcat_name cat) (split_ws (lower query))) xs) =
   map (scored query) (filter (word_match query) (map (\<lambda>(area, cat). Category cat) xs))"
proof (induction xs)
  case Nil
  show ?case by simp
next
  case (Cons x xs)
  obtain area cat where x: "x = (area, cat)" by (cases x)
  show ?case
    using Cons matches_all_words_iff [of "Category cat" query]
      score_match_scored [of "Category cat" query]
    by (simp add: x)
qed

lemma tier_ids:
  "map (\<lambda>jd_id. (score_match (jdid_name jd_id) query, jdid_code jd_id, Id jd_id))
     (filter (\<lambda>jd_id. \<not> (jdid_section jd_id \<and> \<not> incl) \<and>
                       matches_all_words (jdid_name jd_id) (split_ws (lower query))) xs) =
   map (scored query) (filter (word_match query)
     (map Id (filter (\<lambda>jd_id. \<not> (jdid_section jd_id \<and> \<not> incl)) xs)))"
proof (induction xs)
  case Nil
  show ?case by simp
next
  case (Cons x xs)
  show ?case
    using Cons matches_all_words_iff [of "Id x" query] score_match_scored [of "Id x" query]
    by simp
qed


lemma search_results_ranked:
  "search_results query level incl index =
     sort_key rank_key (map (scored query) (filter (word_match query) (candidates level incl index)))"
  unfolding search_results_def candidates_def Let_def rank_key_lambda tier_areas tier_categories tier_ids
  by simp

lemma filter_unique_key:
  "distinct (map f xs) \<Longrightarrow> k \<in> set xs \<Longrightarrow> filter (\<lambda>x. f k = f x) xs = [k]"
proof (induction xs)
  case Nil
  then show ?case by simp
next
  case (Cons x xs)
  show ?case
  proof (cases "x = k")
    case True
    have "filter (\<lambda>y. f k = f y) xs = []"
      using Cons.prems(1) True by (auto simp: filter_empty_conv)
    with True show ?thesis by simp
  next
    case False
    with Cons.prems have k: "k \<in> set xs" by auto
    then have "f k \<in> f ` set xs" by (rule imageI)
    with Cons.prems(1) have "f k \<noteq> f x" by auto
    with Cons k show ?thesis by simp
  qed
qed

lemma sort_key_rearranged:
  assumes "mset xs = mset ys" and "distinct (map f xs)"
  shows "sort_key f xs = sort_key f ys"
proof (rule properties_for_sort_key)
  show "mset (sort_key f ys) = mset xs" using assms(1) by simp
  show "sorted (map f (sort_key f ys))" by simp
  fix k assume "k \<in> set (sort_key f ys)"
  then have k: "k \<in> set xs" using assms(1) by (metis mset_eq_setD set_sort)
  have "mset (map f (sort_key f ys)) = mset (map f xs)" using assms(1) by simp
  then have "distinct (map f (sort_key f ys))"
    using assms(2) by (metis mset_eq_imp_distinct_iff)
  then have "filter (\<lambda>x. f k = f x) (sort_key f ys) = [k]"
    using \<open>k \<in> set (sort_key f ys)\<close> by (rule filter_unique_key)
  moreover have "filter (\<lambda>x. f k = f x) xs = [k]"
    using assms(2) k by (rule filter_unique_key)
  ultimately show "filter (\<lambda>x. f k = f x) (sort_key f ys) = filter (\<lambda>x. f k = f x) xs"
    by simp
qed

lemma distinct_rank_keys:
  "distinct (map item_code cs) \<Longrightarrow>
   distinct (map rank_key (map (scored query) (filter P cs)))"
proof (induction cs)
  case Nil
  then show ?case by simp
next
  case (Cons c cs)
  have "rank_key (scored query c) \<notin> (\<lambda>x. rank_key (scored query x)) ` set (filter P cs)"
  proof
    assume "rank_key (scored query c) \<in> (\<lambda>x. rank_key (scored query x)) ` set (filter P cs)"
    then obtain d where "d \<in> set cs" "rank_key (scored query d) = rank_key (scored query c)"
      by auto
    then have "item_code d = item_code c" "d \<in> set cs"
      by (auto simp: rank_key_def scored_def)
    then have "item_code c \<in> item_code ` set cs" by (metis imageI)
    with Cons.prems show False by simp
  qed
  with Cons show ?case by (auto simp: image_image)
qed

lemma sections_hidden_from_search:
  "Id jd_id \<in> set (search query level False index) \<longrightarrow> \<not> jdid_section jd_id"
proof
  assume "Id jd_id \<in> set (search query level False index)"
  then have "Id jd_id \<in> snd ` snd ` set (search_results query level False index)"
    by (force simp: search_def)
  then have "Id jd_id \<in> set (candidates level False index)"
    by (auto simp: search_results_ranked scored_def)
  then show "\<not> jdid_section jd_id"
    by (auto simp: candidates_def split: if_splits)
qed

lemma dict_set_fresh: "k \<notin> fst ` set d \<Longrightarrow> dict_set k v d = d @ [(k, v)]"
  by (induction d) auto

lemma dict_fold_distinct:
  "distinct (map key xs) \<Longrightarrow> key ` set xs \<inter> fst ` set d = {} \<Longrightarrow>
   foldl (\<lambda>d x. dict_set (key x) x d) d xs = d @ map (\<lambda>x. (key x, x)) xs"
proof (induction xs arbitrary: d)
  case Nil
  then show ?case by simp
next
  case (Cons x xs)
  from Cons.prems have fresh: "key x \<notin> fst ` set d" by auto
  have "key ` set xs \<inter> fst ` set (d @ [(key x, x)]) = {}"
    using Cons.prems by auto
  with Cons.IH [of "d @ [(key x, x)]"] Cons.prems(1) show ?case
    by (simp add: dict_set_fresh [OF fresh])
qed

lemma dict_of_distinct:
  "distinct (map key xs) \<Longrightarrow> dict_values (dict_of key xs) = xs"
  using dict_fold_distinct [of key xs "[]"] by (simp add: dict_of_def dict_values_def o_def)

lemma categories_all:
  assumes "distinct (map jdcat_code (all_categories index))"
  shows "map snd (dict_values (categories index)) = all_categories index"
proof -
  let ?ps = "concat (map (\<lambda>area. map (Pair area) (area_iter area)) (jdex_iter index))"
  have s: "map snd ?ps = all_categories index"
    by (simp add: all_categories_def map_concat o_def)
  have "map (\<lambda>(area, cat). jdcat_code cat) ?ps = map jdcat_code (map snd ?ps)"
    by (simp add: case_prod_beta)
  with assms s have "distinct (map (\<lambda>(area, cat). jdcat_code cat) ?ps)" by simp
  then have "dict_values (categories index) = ?ps"
    unfolding categories_def by (rule dict_of_distinct)
  with s show ?thesis by simp
qed

lemma ids_all:
  assumes "distinct (map jdcat_code (all_categories index))"
    and "distinct (map jdid_code (all_ids index))"
  shows "dict_values (ids index) = all_ids index"
proof -
  have "concat (map (\<lambda>(area, cat). cat_iter cat) (dict_values (categories index))) =
        concat (map cat_iter (map snd (dict_values (categories index))))"
    by (simp add: case_prod_beta' o_def)
  also have "\<dots> = all_ids index"
    by (simp add: categories_all [OF assms(1)] all_ids_def)
  finally have src: "concat (map (\<lambda>(area, cat). cat_iter cat) (dict_values (categories index))) =
        all_ids index" .
  show ?thesis
    unfolding ids_def src using assms(2) by (rule dict_of_distinct)
qed

lemma split_ws_spaces: "list_all is_space s \<Longrightarrow> split_ws s = []"
proof -
  assume "list_all is_space s"
  then have d: "dropWhile is_space s = []"
    unfolding dropWhile_eq_Nil_conv list_all_iff .
  show ?thesis
    by (subst split_ws.simps) (simp only: d list.case)
qed

lemma run_then_space:
  assumes "\<not> list_ex is_space w" and "rest = [] \<or> is_space (hd rest)"
  shows "takeWhile (\<lambda>x. \<not> is_space x) (w @ rest) = w"
    and "dropWhile (\<lambda>x. \<not> is_space x) (w @ rest) = rest"
proof -
  from assms(1) have w: "\<And>x. x \<in> set w \<Longrightarrow> \<not> is_space x"
    by (simp add: list_ex_iff)
  from assms(2) have "takeWhile (\<lambda>x. \<not> is_space x) rest = []"
    by (cases rest) auto
  with w show "takeWhile (\<lambda>x. \<not> is_space x) (w @ rest) = w"
    by (simp add: takeWhile_append2)
  from assms(2) have "dropWhile (\<lambda>x. \<not> is_space x) rest = rest"
    by (cases rest) auto
  with w show "dropWhile (\<lambda>x. \<not> is_space x) (w @ rest) = rest"
    by (simp add: dropWhile_append2)
qed

lemma split_ws_word:
  assumes "list_all is_space sp" and "w \<noteq> []" and "\<not> list_ex is_space w"
    and "rest = [] \<or> is_space (hd rest)"
  shows "split_ws (sp @ w @ rest) = w # split_ws rest"
proof -
  from assms(2) obtain c cs where w: "w = c # cs" by (cases w) auto
  with assms(3) have c: "\<not> is_space c" and cs: "\<not> list_ex is_space cs" by simp_all
  from assms(1) have "dropWhile is_space (sp @ w @ rest) = dropWhile is_space (w @ rest)"
    by (simp add: dropWhile_append2 list_all_iff)
  with c have d: "dropWhile is_space (sp @ w @ rest) = c # (cs @ rest)"
    by (simp add: w)
  have t: "takeWhile (\<lambda>x. \<not> is_space x) (c # (cs @ rest)) = w"
    using run_then_space(1) [OF assms(3) assms(4)] by (simp add: w)
  have r: "dropWhile (\<lambda>x. \<not> is_space x) (cs @ rest) = rest"
    using cs assms(4) by (rule run_then_space(2))
  show ?thesis
    by (subst split_ws.simps) (simp only: d list.case t r)
qed

lemma words_decompose:
  "list_all is_space s \<or>
   (\<exists>sp w rest. s = sp @ w @ rest \<and> list_all is_space sp \<and> w \<noteq> [] \<and> \<not> list_ex is_space w \<and>
      (rest = [] \<or> is_space (hd rest)) \<and> length rest < length s)"
proof (cases "list_all is_space s")
  case True
  then show ?thesis by simp
next
  case False
  let ?sp = "takeWhile is_space s"
  let ?t = "dropWhile is_space s"
  let ?w = "takeWhile (\<lambda>x. \<not> is_space x) ?t"
  let ?rest = "dropWhile (\<lambda>x. \<not> is_space x) ?t"
  from False have t: "?t \<noteq> []"
    by (simp add: list_all_iff)
  then have h: "\<not> is_space (hd ?t)"
    by (rule hd_dropWhile)
  with t have w: "?w \<noteq> []"
    by (cases ?t) auto
  have s: "s = ?sp @ ?w @ ?rest"
    by simp
  have sp: "list_all is_space ?sp"
    by (auto simp: list_all_iff dest: set_takeWhileD)
  have nw: "\<not> list_ex is_space ?w"
    by (auto simp: list_ex_iff dest: set_takeWhileD)
  have r: "?rest = [] \<or> is_space (hd ?rest)"
    using hd_dropWhile [of "\<lambda>x. \<not> is_space x" ?t] by auto
  have "length s = length ?sp + length ?w + length ?rest"
    by (metis s length_append add.assoc)
  with w have l: "length ?rest < length s"
    by (cases ?w) auto
  from s sp w nw r l show ?thesis by blast
qed

lemma is_word_of_step:
  assumes sp: "list_all is_space sp" and w1: "w1 \<noteq> []" "\<not> list_ex is_space w1"
    and rest: "rest = [] \<or> is_space (hd rest)"
  shows "is_word_of w (sp @ w1 @ rest) \<longleftrightarrow> w = w1 \<or> is_word_of w rest"
proof
  assume "w = w1 \<or> is_word_of w rest"
  then show "is_word_of w (sp @ w1 @ rest)"
  proof
    assume e: "w = w1"
    have "sp = [] \<or> is_space (last sp)"
      using sp by (cases sp rule: rev_cases) (auto simp: list_all_iff)
    with w1 rest show ?thesis
      unfolding is_word_of_def e by blast
  next
    assume "is_word_of w rest"
    then obtain b a where w: "w \<noteq> []" "\<not> list_ex is_space w" and eq: "rest = b @ w @ a"
      and b: "b = [] \<or> is_space (last b)" and a: "a = [] \<or> is_space (hd a)"
      unfolding is_word_of_def by blast
    have "b \<noteq> []"
    proof
      assume "b = []"
      with eq w(1) have "rest \<noteq> []" "hd rest = hd w" by auto
      with rest have "is_space (hd w)" by auto
      with w show False by (cases w) auto
    qed
    with b have "is_space (last (sp @ w1 @ b))" by simp
    moreover have "sp @ w1 @ rest = (sp @ w1 @ b) @ w @ a" by (simp add: eq)
    ultimately show ?thesis
      unfolding is_word_of_def using w a by blast
  qed
next
  assume "is_word_of w (sp @ w1 @ rest)"
  then obtain b a where w: "w \<noteq> []" "\<not> list_ex is_space w" and eq: "sp @ w1 @ rest = b @ w @ a"
    and b: "b = [] \<or> is_space (last b)" and a: "a = [] \<or> is_space (hd a)"
    unfolding is_word_of_def by blast
  have same: "w = w1" if "w1 @ rest = w @ a"
  proof -
    have "takeWhile (\<lambda>x. \<not> is_space x) (w1 @ rest) = w1"
      using w1(2) rest by (rule run_then_space(1))
    moreover have "takeWhile (\<lambda>x. \<not> is_space x) (w @ a) = w"
      using w(2) a by (rule run_then_space(1))
    ultimately show ?thesis using that by simp
  qed
  from eq consider (left) us where "sp = b @ us" "us @ w1 @ rest = w @ a"
    | (right) us where "sp @ us = b" "w1 @ rest = us @ w @ a"
    unfolding append_eq_append_conv2 by blast
  then show "w = w1 \<or> is_word_of w rest"
  proof cases
    case left
    show ?thesis
    proof (cases us)
      case Nil
      with left same show ?thesis by simp
    next
      case (Cons u us')
      with left(1) sp have "is_space u" by (simp add: list_all_iff)
      moreover from left(2) Cons w(1) have "hd w = u" by (cases w) auto
      ultimately show ?thesis using w by (cases w) auto
    qed
  next
    case right
    show ?thesis
    proof (cases "us = []")
      case True
      with right same show ?thesis by simp
    next
      case False
      with right(1) b have lu: "is_space (last us)" by auto
      from right(2) consider (in_word) vs where "w1 = us @ vs"
        | (after) vs where "w1 @ vs = us" "rest = vs @ w @ a"
        unfolding append_eq_append_conv2 by blast
      then show ?thesis
      proof cases
        case in_word
        with False have "last us \<in> set w1" by simp
        with w1(2) lu show ?thesis by (auto simp: list_ex_iff)
      next
        case after
        have "vs \<noteq> []"
        proof
          assume "vs = []"
          with after(2) w(1) have "rest \<noteq> []" "hd rest = hd w" by auto
          with rest have "is_space (hd w)" by auto
          with w show False by (cases w) auto
        qed
        with after(1) lu have "is_space (last vs)" by (metis last_appendR)
        with after(2) w a have "is_word_of w rest"
          unfolding is_word_of_def by blast
        then show ?thesis ..
      qed
    qed
  qed
qed

lemma no_word_in_spaces: "list_all is_space s \<Longrightarrow> \<not> is_word_of w s"
proof
  assume s: "list_all is_space s" and "is_word_of w s"
  then obtain c cs where "c \<in> set s" "\<not> is_space c"
    unfolding is_word_of_def by (cases w) auto
  with s show False by (simp add: list_all_iff)
qed

lemma split_ws_words: "w \<in> set (split_ws s) \<longleftrightarrow> is_word_of w s"
proof (induction s rule: length_induct)
  case (1 s)
  from words_decompose [of s] show ?case
  proof
    assume "list_all is_space s"
    then show ?thesis by (simp add: split_ws_spaces no_word_in_spaces)
  next
    assume "\<exists>sp w rest. s = sp @ w @ rest \<and> list_all is_space sp \<and> w \<noteq> [] \<and>
      \<not> list_ex is_space w \<and> (rest = [] \<or> is_space (hd rest)) \<and> length rest < length s"
    then obtain sp w1 rest where s: "s = sp @ w1 @ rest" and h: "list_all is_space sp" "w1 \<noteq> []"
      "\<not> list_ex is_space w1" "rest = [] \<or> is_space (hd rest)" and l: "length rest < length s"
      by blast
    from 1 l have "w \<in> set (split_ws rest) \<longleftrightarrow> is_word_of w rest" by blast
    then show ?thesis
      unfolding s split_ws_word [OF h] is_word_of_step [OF h] by auto
  qed
qed

lemma word_match_words:
  "word_match query entry \<longleftrightarrow>
     (\<forall>word. is_word_of word (lower query) \<longrightarrow> occurs_in word (lower (item_name entry)))"
  by (auto simp: word_match_def split_ws_words)

lemma candidates_tier_entries:
  assumes "distinct (map jdcat_code (all_categories index))"
    and "distinct (map jdid_code (all_ids index))"
  shows "candidates level incl index = tier_entries level incl index"
proof -
  have "map (\<lambda>(area, cat). Category cat) (dict_values (categories index)) =
        map Category (map snd (dict_values (categories index)))"
    by (simp add: case_prod_beta o_def)
  then have c: "map (\<lambda>(area, cat). Category cat) (dict_values (categories index)) =
        map Category (all_categories index)"
    by (simp only: categories_all [OF assms(1)])
  show ?thesis
    unfolding candidates_def tier_entries_def c ids_all [OF assms] ..
qed

text \<open>
  C4 (as amended). For every index, query, level and \<open>include_sections\<close>: the scored
  results of \<open>search\<close> are exactly the entries of the flattened views in the selected
  tier (\<open>candidates\<close>: the areas, the categories of \<open>JDex.categories\<close> and the Ids of
  \<open>JDex.ids\<close>, sections left out unless asked for) whose lowered name contains every
  white-space-separated word of the lowered query, each once and with the score
  \<open>100 - len(name)\<close> when the lowered query occurs in the lowered name and \<open>- len(name)\<close>
  otherwise (\<open>scored\<close>, \<open>word_match\<close>); they are sorted by descending score and then
  ascending code (\<open>rank_key\<close>); \<open>search\<close> returns their entries in that order; the
  order does not depend on the order of discovery: ranking any rearrangement of the
  candidates gives the same list, their codes being distinct; and the flattened views hold
  every entry of the index in the tier (\<open>tier_entries\<close>) when no category code and no
  Id code occurs twice in the index.
\<close>

theorem search_matches_scores_order:
  "mset (search_results query level incl index) =
     mset (map (scored query) (filter (word_match query) (candidates level incl index))) \<and>
   sorted (map rank_key (search_results query level incl index)) \<and>
   search query level incl index = map (\<lambda>r. snd (snd r)) (search_results query level incl index) \<and>
   (\<forall>cs. mset cs = mset (candidates level incl index) \<and> distinct (map item_code cs) \<longrightarrow>
      sort_key rank_key (map (scored query) (filter (word_match query) cs)) =
        search_results query level incl index) \<and>
   (word_match query entry \<longleftrightarrow>
      (\<forall>word. is_word_of word (lower query) \<longrightarrow> occurs_in word (lower (item_name entry)))) \<and>
   (distinct (map jdcat_code (all_categories index)) \<and> distinct (map jdid_code (all_ids index)) \<longrightarrow>
      candidates level incl index = tier_entries level incl index)"
proof -
  let ?c = "candidates level incl index"
  have a: "mset (search_results query level incl index) =
     mset (map (scored query) (filter (word_match query) ?c))"
    by (simp add: search_results_ranked)
  have b: "sorted (map rank_key (search_results query level incl index))"
    by (simp add: search_results_ranked)
  have c: "search query level incl index =
      map (\<lambda>r. snd (snd r)) (search_results query level incl index)"
    by (simp add: search_def case_prod_beta)
  have d: "sort_key rank_key (map (scored query) (filter (word_match query) cs)) =
        search_results query level incl index"
    if "mset cs = mset ?c" "distinct (map item_code cs)" for cs
  proof -
    have "mset (map (scored query) (filter (word_match query) cs)) =
          mset (map (scored query) (filter (word_match query) ?c))"
      using that(1) by simp
    moreover have "distinct (map rank_key (map (scored query) (filter (word_match query) cs)))"
      using that(2) by (rule distinct_rank_keys)
    ultimately show ?thesis
      unfolding search_results_ranked by (rule sort_key_rearranged)
  qed
  from a b c d word_match_words [of query entry] candidates_tier_entries [of index level incl]
  show ?thesis by blast
qed

lemma word_match_no_words: "split_ws (lower query) = [] \<Longrightarrow> word_match query entry"
  by (simp add: word_match_def)

lemma split_ws_Nil: "split_ws [] = []"
  by (simp add: split_ws.simps)

lemma scored_empty_query:
  "scored [] entry = (100 - int (length (item_name entry)), item_code entry, entry)"
proof -
  have "lower (item_name entry) = [] @ lower [] @ lower (item_name entry)"
    by (simp add: lower_def)
  then have "occurs_in (lower []) (lower (item_name entry))"
    unfolding occurs_in_def by blast
  then show ?thesis by (simp add: scored_def)
qed

text \<open>
  C10 (as amended). With a query that has no words and no level, \<open>search\<close> returns every
  area, every category of the flattened view and every Id of the flattened view that is
  not a section, each once, ordered by descending score and then ascending code. With the
  empty query every score is \<open>100 - len(name)\<close>; with a query of white space the score is
  \<open>100 - len(name)\<close> only for a name that contains the query, and \<open>- len(name)\<close>
  otherwise. The flattened views hold every category and every Id of the index when no
  category code and no Id code occurs twice.
\<close>

theorem search_without_words:
  "(split_ws (lower query) = [] \<longrightarrow>
      mset (search_results query None False index) =
        mset (map (scored query) (candidates None False index)) \<and>
      sorted (map rank_key (search_results query None False index))) \<and>
   search_results [] None False index =
     sort_key rank_key
       (map (\<lambda>entry. (100 - int (length (item_name entry)), item_code entry, entry))
          (candidates None False index)) \<and>
   candidates None False index =
     map Area (jdex_iter index) @
     map Category (map snd (dict_values (categories index))) @
     map Id (filter (\<lambda>jd_id. \<not> jdid_section jd_id) (dict_values (ids index))) \<and>
   (distinct (map jdcat_code (all_categories index)) \<longrightarrow>
      map snd (dict_values (categories index)) = all_categories index \<and>
      (distinct (map jdid_code (all_ids index)) \<longrightarrow> dict_values (ids index) = all_ids index))"
proof -
  have a: "mset (search_results query None False index) =
        mset (map (scored query) (candidates None False index))"
    and b: "sorted (map rank_key (search_results query None False index))"
    if "split_ws (lower query) = []"
    using word_match_no_words [OF that] by (simp_all add: search_results_ranked)
  have "split_ws (lower []) = []"
    by (simp add: lower_def split_ws_Nil)
  then have c: "search_results [] None False index =
     sort_key rank_key
       (map (\<lambda>entry. (100 - int (length (item_name entry)), item_code entry, entry))
          (candidates None False index))"
    using word_match_no_words [of "[]"]
    by (simp add: search_results_ranked scored_empty_query [abs_def])
  have d: "candidates None False index =
     map Area (jdex_iter index) @
     map Category (map snd (dict_values (categories index))) @
     map Id (filter (\<lambda>jd_id. \<not> jdid_section jd_id) (dict_values (ids index)))"
    by (simp add: candidates_def case_prod_beta o_def)
  from a b c d categories_all ids_all show ?thesis by blast
qed

section \<open>The path resolver\<close>

lemma insort_key_map_values:
  "insort_key fst (k, g v) (map (\<lambda>(k, v). (k, g v)) d) =
   map (\<lambda>(k, v). (k, g v)) (insort_key fst (k, v) d)"
  by (induction d) auto

lemma sort_key_map_values:
  "sort_key fst (map (\<lambda>(k, v). (k, g v)) d) = map (\<lambda>(k, v). (k, g v)) (sort_key fst d)"
  by (induction d) (auto simp: insort_key_map_values)

lemma sorted_values_map:
  "sorted_values (map (\<lambda>(k, v). (k, g v)) d) = map g (sorted_values d)"
  by (simp add: sorted_values_def sort_key_map_values case_prod_beta o_def)

lemma dict_set_map_values:
  "dict_set k (g v) (map (\<lambda>(k, v). (k, g v)) d) = map (\<lambda>(k, v). (k, g v)) (dict_set k v d)"
  by (induction d) auto

lemma dict_fold_map_values:
  assumes "\<And>x. key' (g x) = key x"
  shows "foldl (\<lambda>d x. dict_set (key' x) x d) (map (\<lambda>(k, v). (k, g v)) d) (map g xs) =
         map (\<lambda>(k, v). (k, g v)) (foldl (\<lambda>d x. dict_set (key x) x d) d xs)"
proof (induction xs arbitrary: d)
  case Nil
  show ?case by simp
next
  case (Cons x xs)
  show ?case
    using Cons [of "dict_set (key x) x d"] by (simp add: assms dict_set_map_values)
qed

lemma dict_of_map_values:
  assumes "\<And>x. key' (g x) = key x"
  shows "dict_of key' (map g xs) = map (\<lambda>(k, v). (k, g v)) (dict_of key xs)"
  using dict_fold_map_values [of key' g key "[]" xs, OF assms] by (simp add: dict_of_def)

lemma jdex_iter_flag: "jdex_iter (flag_index f index) = map (flag_area f) (jdex_iter index)"
  by (simp add: jdex_iter_def flag_index_def sorted_values_map)

lemma area_iter_flag: "area_iter (flag_area f area) = map (flag_category f) (area_iter area)"
  by (simp add: area_iter_def flag_area_def sorted_values_map)

lemma categories_flag:
  "categories (flag_index f index) =
   map (\<lambda>(k, v). (k, (\<lambda>(area, cat). (flag_area f area, flag_category f cat)) v)) (categories index)"
proof -
  let ?g = "\<lambda>(area, cat). (flag_area f area, flag_category f cat)"
  have src: "concat (map (\<lambda>area. map (Pair area) (area_iter area)) (jdex_iter (flag_index f index))) =
        map ?g (concat (map (\<lambda>area. map (Pair area) (area_iter area)) (jdex_iter index)))"
    by (simp add: jdex_iter_flag area_iter_flag map_concat o_def)
  have key: "\<And>x. (\<lambda>(area, cat). jdcat_code cat) (?g x) = (\<lambda>(area, cat). jdcat_code cat) x"
    by (simp add: case_prod_beta flag_category_def)
  show ?thesis
    unfolding categories_def src
    by (rule dict_of_map_values [of "\<lambda>(area, cat). jdcat_code cat" ?g "\<lambda>(area, cat). jdcat_code cat", OF key])
qed

lemma get_category_flag:
  "get_category (flag_index f index) code =
   map_option (\<lambda>(area, cat). (flag_area f area, flag_category f cat)) (get_category index code)"
  by (simp add: get_category_def categories_flag map_of_map)


lemma cat_iter_flag: "cat_iter (flag_category f cat) = map (flag_id f) (cat_iter cat)"
  by (simp add: cat_iter_def flag_category_def sorted_values_map)

lemma dict_values_map_values:
  "dict_values (map (\<lambda>(k, v). (k, g v)) d) = map g (dict_values d)"
  by (simp add: dict_values_def case_prod_beta o_def)

lemma ids_flag:
  "ids (flag_index f index) = map (\<lambda>(k, v). (k, flag_id f v)) (ids index)"
proof -
  have src: "concat (map (\<lambda>(area, cat). cat_iter cat) (dict_values (categories (flag_index f index)))) =
        map (flag_id f) (concat (map (\<lambda>(area, cat). cat_iter cat) (dict_values (categories index))))"
    by (simp add: categories_flag dict_values_map_values map_concat o_def case_prod_beta
        cat_iter_flag)
  have key: "\<And>x. jdid_code (flag_id f x) = jdid_code x"
    by (simp add: flag_id_def)
  show ?thesis
    unfolding ids_def src by (rule dict_of_map_values [of jdid_code "flag_id f" jdid_code, OF key])
qed

lemma find_by_code_flag:
  "find_by_code (flag_index f index) code = None \<longleftrightarrow> find_by_code index code = None"
proof -
  have "get_area (flag_index f index) code = map_option (flag_area f) (get_area index code)"
    by (simp add: get_area_def flag_index_def map_of_map)
  moreover have "get_id (flag_index f index) code = map_option (flag_id f) (get_id index code)"
    by (simp add: get_id_def ids_flag map_of_map)
  ultimately show ?thesis
    by (simp add: find_by_code_def get_category_flag)
qed

lemma resolve_category_flag:
  "resolve_category (flag_index f index) jd_root cat_code = resolve_category index jd_root cat_code"
  by (simp add: resolve_category_def get_category_flag flag_area_def flag_category_def
      split: option.splits)

lemma resolve_path_flag:
  "resolve_path code (flag_index f index) jd_root = resolve_path code index jd_root"
proof (cases "find_by_code index code")
  case None
  then have "find_by_code (flag_index f index) code = None"
    by (simp add: find_by_code_flag)
  with None show ?thesis by (simp add: resolve_path_def)
next
  case (Some entry)
  then obtain entry' where "find_by_code (flag_index f index) code = Some entry'"
    using find_by_code_flag [of f index code] by (cases "find_by_code (flag_index f index) code") auto
  with Some show ?thesis
    by (simp add: resolve_path_def resolve_category_flag cong: list.case_cong)
qed


lemma first_folder_OSError: "first_folder code es = Inl e \<Longrightarrow> is_OSError e"
proof (induction es)
  case Nil
  then show ?case by simp
next
  case (Cons x es)
  obtain name item where x: "x = (name, item)" by (cases x)
  from Cons is_dir_OSError [of item e] show ?case
    by (auto simp: x split: sum.splits if_splits)
qed

lemma first_folder_found:
  "first_folder code es = Inr (Some (name, d)) \<Longrightarrow>
   (name, d) \<in> set es \<and> is_dir d = Inr True \<and> code_then_space code name"
proof (induction es)
  case Nil
  then show ?case by simp
next
  case (Cons x es)
  obtain n item where x: "x = (n, item)" by (cases x)
  from Cons show ?case
    by (auto simp: x split: sum.splits if_splits)
qed

text \<open>The listing and the loop of \<open>_find_folder_by_code\<close>, which the \<open>try\<close> encloses.\<close>

lemma listing_OSError:
  "(case iterdir parent of Inl e \<Rightarrow> Inl e | Inr entries \<Rightarrow> first_folder code entries) = Inl e \<Longrightarrow>
   is_OSError e"
  using iterdir_OSError [of parent e] first_folder_OSError [of code _ e]
  by (auto split: sum.splits)

lemma find_folder_raises:
  "find_folder_by_code parent code = Inl e \<longleftrightarrow> exists parent = Inl e"
proof (cases "exists parent")
  case (Inl err)
  then show ?thesis by (simp add: find_folder_by_code_def)
next
  case (Inr b)
  show ?thesis
  proof (cases "case iterdir parent of Inl e \<Rightarrow> Inl e | Inr entries \<Rightarrow> first_folder code entries")
    case (Inl err)
    then have "is_OSError err" by (rule listing_OSError)
    with Inl Inr show ?thesis by (cases b) (simp_all add: find_folder_by_code_def)
  next
    case found: (Inr r)
    with Inr show ?thesis by (cases b) (simp_all add: find_folder_by_code_def)
  qed
qed

lemma find_folder_found:
  assumes "find_folder_by_code parent code = Inr (Some (name, d))"
  shows "is_dir d = Inr True \<and> code_then_space code name \<and>
         (\<exists>entries. iterdir parent = Inr entries \<and> (name, d) \<in> set entries)"
proof -
  from assms have t: "exists parent = Inr True"
    by (auto simp: find_folder_by_code_def split: sum.splits bool.splits)
  from assms t obtain entries where l: "iterdir parent = Inr entries"
    by (cases "iterdir parent") (auto simp: find_folder_by_code_def split: if_splits)
  from assms t l have "first_folder code entries = Inr (Some (name, d))"
    by (cases "first_folder code entries") (auto simp: find_folder_by_code_def split: if_splits)
  with l show ?thesis using first_folder_found by blast
qed

lemma found_exists:
  "find_folder_by_code parent code = Inr (Some (name, d)) \<Longrightarrow> exists (Some d) = Inr True"
  using find_folder_found [of parent code name d] by (cases d) auto

lemma resolve_category_raises:
  "resolve_category index jd_root cat_code = Inl e \<Longrightarrow> exists jd_root = Inl e"
  using found_exists [of jd_root]
  by (auto simp: resolve_category_def find_folder_raises
      split: option.splits sum.splits if_splits)

lemma resolve_category_found_exists:
  "resolve_category index jd_root cat_code = Inr (Some (names, d)) \<Longrightarrow> exists (Some d) = Inr True"
  using found_exists
  by (auto simp: resolve_category_def split: option.splits sum.splits if_splits)

lemma resolve_path_raises:
  "resolve_path code index jd_root = Inl e \<Longrightarrow> exists jd_root = Inl e"
proof -
  assume r: "resolve_path code index jd_root = Inl e"
  obtain c cs where s: "split_on 46 code = c # cs"
    using split_on_nonempty [of 46 code] by (cases "split_on 46 code") auto
  from r resolve_category_raises [of index jd_root _ e] resolve_category_found_exists [of index jd_root]
  show ?thesis
    by (auto simp: resolve_path_def s find_folder_raises split: option.splits sum.splits if_splits)
qed

lemma no_child_find_folder:
  assumes "returns (exists parent)" and "no_child parent code"
  shows "find_folder_by_code parent code = Inr None"
proof (cases "find_folder_by_code parent code")
  case (Inl e)
  with assms(1) show ?thesis by (simp add: find_folder_raises)
next
  case (Inr r)
  show ?thesis
  proof (cases r)
    case None
    with Inr show ?thesis by simp
  next
    case (Some found)
    obtain name d where f: "found = (name, d)" by (cases found)
    from Inr Some f find_folder_found [of parent code name d]
    obtain entries where "iterdir parent = Inr entries" "(name, d) \<in> set entries"
      "code_then_space code name"
      by auto
    with assms(2) show ?thesis
      by (cases parent rule: iterdir.cases) (auto simp: no_child_def list_ex_iff)
  qed
qed

lemma resolve_category_none:
  "get_category index cc = None \<Longrightarrow> resolve_category index jd_root cc = Inr None"
  by (simp add: resolve_category_def)

lemma resolve_category_no_area:
  "returns (exists jd_root) \<Longrightarrow> get_category index cc = Some (area, cat) \<Longrightarrow>
   no_child jd_root (jdarea_code area) \<Longrightarrow>
   resolve_category index jd_root cc = Inr None"
  by (simp add: resolve_category_def no_child_find_folder)

lemma resolve_category_no_category:
  "get_category index cc = Some (area, cat) \<Longrightarrow>
   find_folder_by_code jd_root (jdarea_code area) = Inr (Some (area_name, area_dir)) \<Longrightarrow>
   no_child (Some area_dir) cc \<Longrightarrow>
   resolve_category index jd_root cc = Inr None"
  using found_exists [of jd_root "jdarea_code area" area_name area_dir]
  by (simp add: resolve_category_def no_child_find_folder)

lemma resolve_category_found:
  "get_category index cc = Some (area, cat) \<Longrightarrow>
   find_folder_by_code jd_root (jdarea_code area) = Inr (Some (area_name, area_dir)) \<Longrightarrow>
   find_folder_by_code (Some area_dir) cc = Inr (Some (cat_name, cat_dir)) \<Longrightarrow>
   resolve_category index jd_root cc = Inr None \<or>
   resolve_category index jd_root cc = Inr (Some ([area_name, cat_name], cat_dir))"
  by (simp add: resolve_category_def)

lemma resolve_path_category_none:
  assumes "45 \<notin> set code"
    and "resolve_category index jd_root (category_code_of code) = Inr None"
  shows "resolve_path code index jd_root = Inr None"
proof (cases "find_by_code index code")
  case None
  then show ?thesis by (simp add: resolve_path_def)
next
  case (Some entry)
  obtain c cs where s: "split_on 46 code = c # cs"
    using split_on_nonempty [of 46 code] by (cases "split_on 46 code") auto
  show ?thesis
    using assms by (simp add: resolve_path_def Some s category_code_of_def split: if_splits)
qed

text \<open>
  What \<open>resolve_path\<close> does guarantee. It raises only what \<open>jd_root.exists()\<close>
  raises. Where the status of the root can be read it returns, and it returns \<open>None\<close>
  when a lookup along the chain finds nothing: for an area code under the root; otherwise
  for the code of the owning area under the root, for the category code under the area's
  directory, and for the code of an Id under the category's directory. A lookup finds
  nothing (\<open>no_child\<close>) where the parent is missing or cannot be listed, or has no entry
  whose name starts with the code and a white-space character. For a code that the index
  does not know it returns \<open>None\<close> whatever the root is.
\<close>

lemma resolve_path_none_where_root_status_reads:
  "(resolve_path code index jd_root = Inl e \<longrightarrow> exists jd_root = Inl e) \<and>
   (find_by_code index code = None \<longrightarrow> resolve_path code index jd_root = Inr None) \<and>
   (returns (exists jd_root) \<longrightarrow>
     (\<exists>r. resolve_path code index jd_root = Inr r) \<and>
     (45 \<in> set code \<and> no_child jd_root code \<longrightarrow> resolve_path code index jd_root = Inr None) \<and>
     (45 \<notin> set code \<and> get_category index (category_code_of code) = None \<longrightarrow>
        resolve_path code index jd_root = Inr None) \<and>
     (45 \<notin> set code \<and> get_category index (category_code_of code) = Some (area, cat) \<longrightarrow>
        (no_child jd_root (jdarea_code area) \<longrightarrow> resolve_path code index jd_root = Inr None) \<and>
        (find_folder_by_code jd_root (jdarea_code area) = Inr (Some (area_name, area_dir)) \<longrightarrow>
           (no_child (Some area_dir) (category_code_of code) \<longrightarrow>
              resolve_path code index jd_root = Inr None) \<and>
           (46 \<in> set code \<and>
            find_folder_by_code (Some area_dir) (category_code_of code) =
              Inr (Some (cat_name, cat_dir)) \<and>
            no_child (Some cat_dir) code \<longrightarrow>
              resolve_path code index jd_root = Inr None))))"
proof -
  have raises: "exists jd_root = Inl e" if "resolve_path code index jd_root = Inl e"
    using that by (rule resolve_path_raises)
  have unknown: "resolve_path code index jd_root = Inr None" if "find_by_code index code = None"
    using that by (simp add: resolve_path_def)
  have total: "\<exists>r. resolve_path code index jd_root = Inr r" if "returns (exists jd_root)"
  proof (cases "resolve_path code index jd_root")
    case (Inl err)
    then have "exists jd_root = Inl err" by (rule resolve_path_raises)
    with that show ?thesis by simp
  next
    case (Inr r)
    then show ?thesis by blast
  qed
  have area_gone: "resolve_path code index jd_root = Inr None"
    if "returns (exists jd_root)" "45 \<in> set code" "no_child jd_root code"
    using that by (simp add: resolve_path_def no_child_find_folder split: option.splits)
  have id_gone: "resolve_path code index jd_root = Inr None"
    if h: "45 \<notin> set code" "46 \<in> set code"
      "get_category index (category_code_of code) = Some (area, cat)"
      "find_folder_by_code jd_root (jdarea_code area) = Inr (Some (area_name, area_dir))"
      "find_folder_by_code (Some area_dir) (category_code_of code) = Inr (Some (cat_name, cat_dir))"
      "no_child (Some cat_dir) code"
  proof -
    obtain c cs where s: "split_on 46 code = c # cs"
      using split_on_nonempty [of 46 code] by (cases "split_on 46 code") auto
    with h(2) have cc: "category_code_of code = c" by (simp add: category_code_of_def)
    from found_exists [OF h(5)] have ex: "returns (exists (Some cat_dir))" by simp
    from resolve_category_found [OF h(3) h(4) h(5)]
    show ?thesis
    proof
      assume "resolve_category index jd_root (category_code_of code) = Inr None"
      with h(1) show ?thesis by (rule resolve_path_category_none)
    next
      assume "resolve_category index jd_root (category_code_of code) =
                Inr (Some ([area_name, cat_name], cat_dir))"
      then show ?thesis
        using h(1,2) no_child_find_folder [OF ex h(6)] cc
        by (simp add: resolve_path_def s split: option.splits)
    qed
  qed
  show ?thesis
    using raises unknown total area_gone id_gone
      resolve_path_category_none [OF _ resolve_category_none]
      resolve_path_category_none [OF _ resolve_category_no_area]
      resolve_path_category_none [OF _ resolve_category_no_category]
    by blast
qed

section \<open>The example index\<close>

lemma life_fields:
  "jdarea_code area_life = S ''10-19''" "jdarea_name area_life = S ''10-19 Life admin''"
  "jdarea_categories area_life = [(S ''11'', cat_finance)]"
  "jdarea_code area_work = S ''20-29''" "jdarea_name area_work = S ''20-29  Work''"
  "jdarea_categories area_work = []"
  "jdcat_code cat_finance = S ''11''" "jdcat_name cat_finance = S ''11 Finance''"
  "jdcat_ids cat_finance = [(S ''11.01'', id_inbox), (S ''11.10'', id_taxes)]"
  "jdid_code id_inbox = S ''11.01''" "jdid_name id_inbox = S ''11.01 Inbox''"
  "jdid_section id_inbox = False"
  "jdid_code id_taxes = S ''11.10''" "jdid_name id_taxes = S ''11.10'' @ [32, 9632] @ S '' Taxes''"
  "jdid_section id_taxes = True"
  by (simp_all add: area_life_def area_work_def cat_finance_def id_inbox_def id_taxes_def mk_id_def)

lemma jdex_iter_life: "jdex_iter index_life = [area_life, area_work]"
  by (simp add: jdex_iter_def sorted_values_def index_life_def)

lemma categories_life: "categories index_life = [(S ''11'', (area_life, cat_finance))]"
  by (simp add: categories_def jdex_iter_life area_iter_def sorted_values_def dict_of_def life_fields)

lemma ids_life: "ids index_life = [(S ''11.01'', id_inbox), (S ''11.10'', id_taxes)]"
  by (simp add: ids_def categories_life dict_values_def cat_iter_def sorted_values_def dict_of_def
      life_fields)

lemma candidates_life:
  "candidates None False index_life =
     [Area area_life, Area area_work, Category cat_finance, Id id_inbox]"
  by (simp add: candidates_def jdex_iter_life categories_life ids_life dict_values_def life_fields)

lemma words_in: "split_ws (lower (S ''in'')) = [S ''in'']"
  by (simp add: split_ws.simps lower_def is_space_def)

lemma words_spaces: "split_ws (lower (S ''  '')) = []"
  by (simp add: split_ws.simps lower_def is_space_def)

lemma search_results_in:
  "search_results (S ''in'') None False index_life =
     [(90, S ''11'', Category cat_finance), (89, S ''11.01'', Id id_inbox),
      (84, S ''10-19'', Area area_life)]"
  unfolding search_results_def words_in jdex_iter_life categories_life ids_life dict_values_def Let_def
  by (simp add: matches_all_words_def score_match_def lower_def life_fields)

lemma search_results_spaces:
  "search_results (S ''  '') None False index_life =
     [(89, S ''20-29'', Area area_work), (- 10, S ''11'', Category cat_finance),
      (- 11, S ''11.01'', Id id_inbox), (- 16, S ''10-19'', Area area_life)]"
  unfolding search_results_def words_spaces jdex_iter_life categories_life ids_life dict_values_def Let_def
  by (simp add: matches_all_words_def score_match_def lower_def life_fields)


lemma dup_fields:
  "jdarea_code area_dup_first = S ''10-19''" "jdarea_name area_dup_first = S ''10-19 Life admin''"
  "jdarea_categories area_dup_first = [(S ''11'', cat_dup_first)]"
  "jdarea_code area_dup_second = S ''20-29''" "jdarea_name area_dup_second = S ''20-29 Work''"
  "jdarea_categories area_dup_second = [(S ''11'', cat_dup_second)]"
  "jdcat_code cat_dup_first = S ''11''" "jdcat_name cat_dup_first = S ''11 Finance''"
  "jdcat_ids cat_dup_first = []"
  "jdcat_code cat_dup_second = S ''11''" "jdcat_name cat_dup_second = S ''11 Money''"
  "jdcat_ids cat_dup_second = []"
  by (simp_all add: area_dup_first_def area_dup_second_def cat_dup_first_def cat_dup_second_def)

lemma jdex_iter_dup: "jdex_iter index_dup = [area_dup_first, area_dup_second]"
  by (simp add: jdex_iter_def sorted_values_def index_dup_def)

lemma all_categories_dup: "all_categories index_dup = [cat_dup_first, cat_dup_second]"
  by (simp add: all_categories_def jdex_iter_dup area_iter_def sorted_values_def dup_fields)

lemma categories_dup: "categories index_dup = [(S ''11'', (area_dup_second, cat_dup_second))]"
  by (simp add: categories_def jdex_iter_dup area_iter_def sorted_values_def dict_of_def dup_fields)

lemma ids_dup: "ids index_dup = []"
  by (simp add: ids_def categories_dup dict_values_def cat_iter_def sorted_values_def dict_of_def
      dup_fields)

lemma candidates_life_sections:
  "candidates None True index_life =
     [Area area_life, Area area_work, Category cat_finance, Id id_inbox, Id id_taxes]"
  by (simp add: candidates_def jdex_iter_life categories_life ids_life dict_values_def life_fields)

lemma words_one_in: "split_ws (lower (S ''1 IN'')) = [S ''1'', S ''in'']"
  by (simp add: split_ws.simps lower_def is_space_def)

lemma search_results_one_in:
  "search_results (S ''1 IN'') None True index_life =
     [(89, S ''11.01'', Id id_inbox), (- 10, S ''11'', Category cat_finance),
      (- 16, S ''10-19'', Area area_life)]"
  unfolding search_results_def words_one_in jdex_iter_life categories_life ids_life dict_values_def
    Let_def
  by (simp add: matches_all_words_def score_match_def lower_def life_fields)

lemma all_categories_life: "all_categories index_life = [cat_finance]"
  by (simp add: all_categories_def jdex_iter_life area_iter_def sorted_values_def life_fields)

lemma all_ids_life: "all_ids index_life = [id_inbox, id_taxes]"
  by (simp add: all_ids_def all_categories_life cat_iter_def sorted_values_def life_fields)

text \<open>
  The search for \<open>1 IN\<close> in the example index, sections included, ranked from the
  candidates in reverse order of discovery. The query has the words \<open>1\<close> and \<open>in\<close>.
  \<open>11.01 Inbox\<close> contains the lowered query; \<open>11 Finance\<close> and \<open>10-19 Life admin\<close>
  contain both words and not the query; the section \<open>11.10\<close> contains \<open>1\<close> and not
  \<open>in\<close>, and does not match.
\<close>

theorem search_matches_scores_order_witness:
  "distinct (map jdcat_code (all_categories index_life)) \<and>
   distinct (map jdid_code (all_ids index_life)) \<and>
   candidates None True index_life = tier_entries None True index_life \<and>
   mset (rev (candidates None True index_life)) = mset (candidates None True index_life) \<and>
   distinct (map item_code (rev (candidates None True index_life))) \<and>
   sort_key rank_key
     (map (scored (S ''1 IN''))
        (filter (word_match (S ''1 IN'')) (rev (candidates None True index_life)))) =
     [(89, S ''11.01'', Id id_inbox), (- 10, S ''11'', Category cat_finance),
      (- 16, S ''10-19'', Area area_life)] \<and>
   search (S ''1 IN'') None True index_life = [Id id_inbox, Category cat_finance, Area area_life] \<and>
   is_word_of (S ''in'') (lower (S ''1 IN'')) \<and>
   \<not> occurs_in (S ''in'') (lower (item_name (Id id_taxes))) \<and>
   \<not> word_match (S ''1 IN'') (Id id_taxes)"
proof -
  note inst = search_matches_scores_order [of "S ''1 IN''" None True index_life "Id id_taxes"]
  have dc: "distinct (map jdcat_code (all_categories index_life))"
    by (simp add: all_categories_life)
  have di: "distinct (map jdid_code (all_ids index_life))"
    by (simp add: all_ids_life life_fields)
  from inst dc di have t: "candidates None True index_life = tier_entries None True index_life"
    by blast
  have m: "mset (rev (candidates None True index_life)) = mset (candidates None True index_life)"
    by simp
  have d: "distinct (map item_code (rev (candidates None True index_life)))"
    by (simp add: candidates_life_sections life_fields)
  from inst m d
  have "sort_key rank_key
     (map (scored (S ''1 IN''))
        (filter (word_match (S ''1 IN'')) (rev (candidates None True index_life)))) =
     search_results (S ''1 IN'') None True index_life"
    by blast
  then have r: "sort_key rank_key
     (map (scored (S ''1 IN''))
        (filter (word_match (S ''1 IN'')) (rev (candidates None True index_life)))) =
     [(89, S ''11.01'', Id id_inbox), (- 10, S ''11'', Category cat_finance),
      (- 16, S ''10-19'', Area area_life)]"
    unfolding search_results_one_in .
  have s: "search (S ''1 IN'') None True index_life =
      [Id id_inbox, Category cat_finance, Area area_life]"
    unfolding search_def search_results_one_in by simp
  have "lower (S ''1 IN'') = S ''1 '' @ S ''in'' @ []"
    by (simp add: lower_def)
  moreover have "is_space (last (S ''1 ''))"
    by (simp add: is_space_def)
  moreover have "\<not> list_ex is_space (S ''in'')"
    by (simp add: is_space_def)
  ultimately have w: "is_word_of (S ''in'') (lower (S ''1 IN''))"
    unfolding is_word_of_def by blast
  have o: "\<not> occurs_in (S ''in'') (lower (item_name (Id id_taxes)))"
    unfolding contains_iff_occurs [symmetric]
    by (simp add: life_fields lower_def)
  from inst w o have n: "\<not> word_match (S ''1 IN'') (Id id_taxes)"
    by blast
  from dc di t m d r s w o n show ?thesis by blast
qed

lemma tie_fields:
  "jdarea_code area_tie = S ''11''" "jdarea_name area_tie = S ''11 Home''"
  "jdarea_categories area_tie = [(S ''11'', cat_tie)]"
  "jdcat_code cat_tie = S ''11''" "jdcat_name cat_tie = S ''11 Work''" "jdcat_ids cat_tie = []"
  by (simp_all add: area_tie_def cat_tie_def)

lemma jdex_iter_tie: "jdex_iter index_tie = [area_tie]"
  by (simp add: jdex_iter_def sorted_values_def index_tie_def)

lemma categories_tie: "categories index_tie = [(S ''11'', (area_tie, cat_tie))]"
  by (simp add: categories_def jdex_iter_tie area_iter_def sorted_values_def dict_of_def tie_fields)

lemma ids_tie: "ids index_tie = []"
  by (simp add: ids_def categories_tie dict_values_def cat_iter_def sorted_values_def dict_of_def
      tie_fields)

lemma candidates_tie: "candidates None False index_tie = [Area area_tie, Category cat_tie]"
  by (simp add: candidates_def jdex_iter_tie categories_tie ids_tie dict_values_def)

lemma words_11: "split_ws (lower (S ''11'')) = [S ''11'']"
  by (simp add: split_ws.simps lower_def is_space_def)

lemma search_results_tie:
  "search_results (S ''11'') None False index_tie =
     [(93, S ''11'', Area area_tie), (93, S ''11'', Category cat_tie)]"
  unfolding search_results_def words_11 jdex_iter_tie categories_tie ids_tie dict_values_def Let_def
  by (simp add: matches_all_words_def score_match_def lower_def tie_fields)

lemma ranked_tie_reversed:
  "sort_key rank_key
     (map (scored (S ''11'')) (filter (word_match (S ''11'')) (rev (candidates None False index_tie)))) =
     [(93, S ''11'', Category cat_tie), (93, S ''11'', Area area_tie)]"
proof -
  have wa: "word_match (S ''11'') (Area area_tie)"
    unfolding matches_all_words_iff [symmetric] words_11
    by (simp add: matches_all_words_def lower_def tie_fields)
  have wc: "word_match (S ''11'') (Category cat_tie)"
    unfolding matches_all_words_iff [symmetric] words_11
    by (simp add: matches_all_words_def lower_def tie_fields)
  have sa: "scored (S ''11'') (Area area_tie) = (93, S ''11'', Area area_tie)"
    unfolding score_match_scored [symmetric]
    by (simp add: score_match_def lower_def tie_fields)
  have sc: "scored (S ''11'') (Category cat_tie) = (93, S ''11'', Category cat_tie)"
    unfolding score_match_scored [symmetric]
    by (simp add: score_match_def lower_def tie_fields)
  show ?thesis
    unfolding candidates_tie
    by (simp add: wa [simplified] wc [simplified] sa [simplified] sc [simplified] rank_key_def)
qed

text \<open>
  C4 as stated fails. In \<open>index_dup\<close> the areas \<open>10-19\<close> and \<open>20-29\<close> both hold a
  category with the code \<open>11\<close>. The category \<open>11 Finance\<close> of the first is an entry
  of the category tier and its name contains the only word of the query \<open>finance\<close>, and
  the search for \<open>finance\<close> returns nothing, in the category tier and in all tiers.
  And in \<open>index_tie\<close> the area and the category have the same code and, for the query
  \<open>11\<close>, the same score: the search returns the area first, as it discovers it first,
  and ranking the same two entries discovered in the other order returns the category
  first.
\<close>

theorem search_category_tier_counterexample:
  "area_dup_first \<in> set (jdex_iter index_dup) \<and>
   cat_dup_first \<in> set (area_iter area_dup_first) \<and>
   jdcat_name cat_dup_first = S ''11 Finance'' \<and>
   split_ws (lower (S ''finance'')) = [S ''finance''] \<and>
   contains (S ''finance'') (lower (jdcat_name cat_dup_first)) \<and>
   search (S ''finance'') (Some (S ''category'')) False index_dup = [] \<and>
   search (S ''finance'') None False index_dup = [] \<and>
   search_results (S ''11'') None False index_tie =
     [(93, S ''11'', Area area_tie), (93, S ''11'', Category cat_tie)] \<and>
   mset (rev (candidates None False index_tie)) = mset (candidates None False index_tie) \<and>
   sort_key rank_key
     (map (scored (S ''11''))
        (filter (word_match (S ''11'')) (rev (candidates None False index_tie)))) =
     [(93, S ''11'', Category cat_tie), (93, S ''11'', Area area_tie)]"
proof -
  have a: "area_dup_first \<in> set (jdex_iter index_dup)"
    by (simp add: jdex_iter_dup)
  have c: "cat_dup_first \<in> set (area_iter area_dup_first)"
    by (simp add: area_iter_def sorted_values_def dup_fields)
  have n: "jdcat_name cat_dup_first = S ''11 Finance''"
    by (simp add: dup_fields)
  have w: "split_ws (lower (S ''finance'')) = [S ''finance'']"
    by (simp add: split_ws.simps lower_def is_space_def)
  have m: "contains (S ''finance'') (lower (jdcat_name cat_dup_first))"
    by (simp add: dup_fields lower_def)
  have s1: "search (S ''finance'') (Some (S ''category'')) False index_dup = []"
    unfolding search_def search_results_def w jdex_iter_dup categories_dup ids_dup
      dict_values_def Let_def
    by (simp add: matches_all_words_def score_match_def lower_def dup_fields)
  have s2: "search (S ''finance'') None False index_dup = []"
    unfolding search_def search_results_def w jdex_iter_dup categories_dup ids_dup
      dict_values_def Let_def
    by (simp add: matches_all_words_def score_match_def lower_def dup_fields)
  have t: "mset (rev (candidates None False index_tie)) = mset (candidates None False index_tie)"
    by simp
  from a c n w m s1 s2 search_results_tie t ranked_tie_reversed show ?thesis by blast
qed

lemma words_empty: "split_ws (lower []) = []"
  by (simp add: split_ws.simps lower_def)

lemma search_dup:
  "search [] None False index_dup =
     [Category cat_dup_second, Area area_dup_second, Area area_dup_first]"
  unfolding search_def search_results_def words_empty jdex_iter_dup categories_dup ids_dup
    dict_values_def Let_def
  by (simp add: matches_all_words_def score_match_def lower_def dup_fields)

text \<open>
  C10 as stated fails. The query of two spaces has no words, and the category
  \<open>11 Finance\<close> (ten code points) gets the score \<open>-10\<close> and not \<open>90\<close>, so that
  \<open>20-29  Work\<close>, which contains the query, comes first. And where two areas hold a
  category with the code \<open>11\<close>, the empty query does not return the first of them.
\<close>

theorem search_without_words_counterexample:
  "split_ws (lower (S ''  '')) = [] \<and>
   search_results (S ''  '') None False index_life =
     [(89, S ''20-29'', Area area_work), (- 10, S ''11'', Category cat_finance),
      (- 11, S ''11.01'', Id id_inbox), (- 16, S ''10-19'', Area area_life)] \<and>
   length (jdcat_name cat_finance) = 10 \<and>
   cat_dup_first \<in> set (all_categories index_dup) \<and>
   Category cat_dup_first \<notin> set (search [] None False index_dup)"
proof -
  have "cat_dup_first \<noteq> cat_dup_second"
    by (simp add: cat_dup_first_def cat_dup_second_def)
  then have "Category cat_dup_first \<notin> set (search [] None False index_dup)"
    unfolding search_dup by simp
  moreover have "length (jdcat_name cat_finance) = 10"
    by (simp add: life_fields)
  moreover have "cat_dup_first \<in> set (all_categories index_dup)"
    by (simp add: all_categories_dup)
  ultimately show ?thesis
    using words_spaces search_results_spaces by blast
qed

text \<open>
  The query of two spaces on the example index, whose codes are distinct.
\<close>

theorem search_without_words_witness:
  "split_ws (lower (S ''  '')) = [] \<and>
   distinct (map jdcat_code (all_categories index_life)) \<and>
   distinct (map jdid_code (all_ids index_life)) \<and>
   mset (search_results (S ''  '') None False index_life) =
     mset (map (scored (S ''  '')) (candidates None False index_life)) \<and>
   map snd (dict_values (categories index_life)) = all_categories index_life \<and>
   dict_values (ids index_life) = all_ids index_life"
proof -
  have c: "distinct (map jdcat_code (all_categories index_life))"
    by (simp add: all_categories_life)
  have i: "distinct (map jdid_code (all_ids index_life))"
    by (simp add: all_ids_life life_fields)
  from search_without_words [of "S ''  ''" index_life] words_spaces c i
  show ?thesis by blast
qed

text \<open>
  C3 (as amended). A section-flagged Id never is among the results of \<open>search\<close> when
  \<open>include_sections\<close> is false. \<open>resolve_path\<close> does not depend on the section flag
  of any Id: on every code and root it does the same for an index and for that index with
  the section flags changed in any way, so that a section-flagged Id gets what it would
  get without the flag.
\<close>

theorem sections_hidden_paths_ignore_flag:
  "(Id jd_id \<in> set (search query level False index) \<longrightarrow> \<not> jdid_section jd_id) \<and>
   resolve_path code (flag_index f index) jd_root = resolve_path code index jd_root"
  using sections_hidden_from_search resolve_path_flag by blast

lemma find_area_life:
  "find_folder_by_code (Some root_life) (S ''10-19'') =
     Inr (Some (S ''10-19 Life admin'',
       Dir [(S ''11 Finance'',
             Dir [(S ''11.10'' @ [32, 9632] @ S '' Taxes'', Dir []), (S ''11.01 Inbox'', Dir [])])]))"
  by (simp add: find_folder_by_code_def root_life_def code_then_space_def is_space_def)

text \<open>
  C3 as stated fails: the section-flagged Id \<open>11.10\<close> is known to the index and its
  directory exists, and \<open>resolve_path\<close> returns the path.
\<close>

theorem section_path_counterexample:
  "jdid_section id_taxes \<and>
   get_id index_life (S ''11.10'') = Some id_taxes \<and>
   resolve_path (S ''11.10'') index_life (Some root_life) =
     Inr (Some [S ''10-19 Life admin'', S ''11 Finance'', S ''11.10'' @ [32, 9632] @ S '' Taxes''])"
proof -
  have g: "get_id index_life (S ''11.10'') = Some id_taxes"
    by (simp add: get_id_def ids_life)
  have f: "find_by_code index_life (S ''11.10'') = Some (Id id_taxes)"
    by (simp add: find_by_code_def g [simplified])
  have c: "resolve_category index_life (Some root_life) (S ''11'') =
      Inr (Some ([S ''10-19 Life admin'', S ''11 Finance''],
        Dir [(S ''11.10'' @ [32, 9632] @ S '' Taxes'', Dir []), (S ''11.01 Inbox'', Dir [])]))"
    unfolding resolve_category_def get_category_def categories_life
    by (simp add: life_fields find_area_life [simplified])
      (simp add: find_folder_by_code_def code_then_space_def is_space_def)
  have "resolve_path (S ''11.10'') index_life (Some root_life) =
     Inr (Some [S ''10-19 Life admin'', S ''11 Finance'', S ''11.10'' @ [32, 9632] @ S '' Taxes''])"
    unfolding resolve_path_def f
    by (simp add: c [simplified]) (simp add: find_folder_by_code_def code_then_space_def is_space_def)
  with g show ?thesis by (simp add: life_fields)
qed

text \<open>
  An Id among the results of a search, which is no section.
\<close>

theorem sections_hidden_paths_ignore_flag_witness:
  "Id id_inbox \<in> set (search (S ''in'') None False index_life) \<and> \<not> jdid_section id_inbox"
proof -
  have "Id id_inbox \<in> set (search (S ''in'') None False index_life)"
    unfolding search_def search_results_in by simp
  with sections_hidden_paths_ignore_flag [of id_inbox "S ''in''" None index_life]
  show ?thesis by blast
qed


text \<open>
  The Id \<open>11.01\<close> after its category directory was renamed, and under a missing root.
\<close>

lemma resolve_path_renamed_category:
  "get_category index_life (category_code_of (S ''11.01'')) = Some (area_life, cat_finance) \<and>
   find_folder_by_code (Some root_renamed) (jdarea_code area_life) =
     Inr (Some (S ''10-19 Life admin'', area_dir_renamed)) \<and>
   no_child (Some area_dir_renamed) (category_code_of (S ''11.01'')) \<and>
   resolve_path (S ''11.01'') index_life (Some root_renamed) = Inr None \<and>
   no_child None (jdarea_code area_life) \<and>
   resolve_path (S ''11.01'') index_life None = Inr None"
proof -
  have cc: "category_code_of (S ''11.01'') = S ''11''"
    by (simp add: category_code_of_def)
  have g: "get_category index_life (category_code_of (S ''11.01'')) = Some (area_life, cat_finance)"
    unfolding cc get_category_def categories_life by simp
  have a: "find_folder_by_code (Some root_renamed) (jdarea_code area_life) =
     Inr (Some (S ''10-19 Life admin'', area_dir_renamed))"
    by (simp add: find_folder_by_code_def root_renamed_def life_fields code_then_space_def
        is_space_def area_dir_renamed_def)
  have n: "no_child (Some area_dir_renamed) (category_code_of (S ''11.01''))"
    unfolding cc by (simp add: no_child_def area_dir_renamed_def code_then_space_def)
  have m: "no_child None (jdarea_code area_life)"
    by (simp add: no_child_def)
  have h: "45 \<notin> set (S ''11.01'')"
    by simp
  have e: "returns (exists (Some root_renamed))" "returns (exists None)"
    by (simp_all add: root_renamed_def)
  from resolve_path_none_where_root_status_reads
    [of "S ''11.01''" index_life "Some root_renamed" _ area_life cat_finance
        "S ''10-19 Life admin''" area_dir_renamed] h g a n e(1)
  have r1: "resolve_path (S ''11.01'') index_life (Some root_renamed) = Inr None"
    by blast
  from resolve_path_none_where_root_status_reads
    [of "S ''11.01''" index_life None _ area_life cat_finance] h g m e(2)
  have r2: "resolve_path (S ''11.01'') index_life None = Inr None"
    by blast
  from g a n r1 m r2 show ?thesis by blast
qed

text \<open>
  C7 fails on the code. The root \<open>root_unreadable\<close> is a path whose status cannot be
  read: \<open>jd_root.exists()\<close> raises \<open>PermissionError\<close>, as it does for a root below a
  directory that may not be searched. \<open>_find_folder_by_code\<close> calls \<open>parent.exists()\<close>
  before its \<open>try\<close>, so for the area \<open>10-19\<close>, the category \<open>11\<close> and the Id
  \<open>11.01\<close>, all known to the index, \<open>resolve_path\<close> raises \<open>PermissionError\<close> and does
  not return \<open>None\<close>. Under the root directory \<open>root_unlistable\<close>, whose listing
  raises the same error inside the \<open>try\<close>, it returns \<open>None\<close>.
\<close>

theorem resolve_path_raises_root_status:
  "exists root_unreadable = Inl PermissionError \<and>
   find_by_code index_life (S ''10-19'') = Some (Area area_life) \<and>
   resolve_path (S ''10-19'') index_life root_unreadable = Inl PermissionError \<and>
   find_by_code index_life (S ''11'') = Some (Category cat_finance) \<and>
   resolve_path (S ''11'') index_life root_unreadable = Inl PermissionError \<and>
   find_by_code index_life (S ''11.01'') = Some (Id id_inbox) \<and>
   resolve_path (S ''11.01'') index_life root_unreadable = Inl PermissionError \<and>
   iterdir root_unlistable = Inl PermissionError \<and>
   resolve_path (S ''10-19'') index_life root_unlistable = Inr None"
proof -
  have e: "exists root_unreadable = Inl PermissionError"
    by (simp add: root_unreadable_def)
  have f: "find_folder_by_code root_unreadable code = Inl PermissionError" for code
    by (simp add: find_folder_by_code_def e)
  have l: "iterdir root_unlistable = Inl PermissionError"
    by (simp add: root_unlistable_def)
  have a: "find_by_code index_life (S ''10-19'') = Some (Area area_life)"
    by (simp add: find_by_code_def get_area_def index_life_def)
  have c: "find_by_code index_life (S ''11'') = Some (Category cat_finance)"
    by (simp add: find_by_code_def get_category_def categories_life)
  have i: "find_by_code index_life (S ''11.01'') = Some (Id id_inbox)"
    by (simp add: find_by_code_def get_id_def ids_life)
  have rc: "resolve_category index_life root_unreadable (S ''11'') = Inl PermissionError"
    unfolding resolve_category_def get_category_def categories_life
    by (simp add: life_fields f)
  have ra: "resolve_path (S ''10-19'') index_life root_unreadable = Inl PermissionError"
    unfolding resolve_path_def a by (simp add: f)
  have rcat: "resolve_path (S ''11'') index_life root_unreadable = Inl PermissionError"
    unfolding resolve_path_def c by (simp add: rc [simplified])
  have rid: "resolve_path (S ''11.01'') index_life root_unreadable = Inl PermissionError"
    unfolding resolve_path_def i by (simp add: rc [simplified])
  have rl: "resolve_path (S ''10-19'') index_life root_unlistable = Inr None"
    unfolding resolve_path_def a
    by (simp add: find_folder_by_code_def root_unlistable_def)
  from e a ra c rcat i rid l rl show ?thesis by blast
qed

section \<open>Ownership\<close>

lemma dict_set_entries: "set (dict_set k v d) \<subseteq> insert (k, v) (set d)"
  by (induction d) (auto split: if_splits)

lemma dict_set_values: "x \<in> snd ` set (dict_set k v d) \<Longrightarrow> x = v \<or> x \<in> snd ` set d"
  using dict_set_entries [of k v d] by force

lemma dict_set_member: "(k, v) \<in> set (dict_set k v d)"
  by (induction d) (auto split: if_splits)

lemma dict_set_holds: "v \<in> snd ` set (dict_set k v d)"
  using dict_set_member [of k v d] by force

lemma dict_set_lookup: "map_of (dict_set k v d) k = Some v"
  by (induction d) (auto split: if_splits)

lemma dict_pop_values: "x \<in> snd ` set (fst (dict_pop k d)) \<Longrightarrow> x \<in> snd ` set d"
  by (auto simp: dict_pop_def)

lemma dict_pop_lookup: "map_of (fst (dict_pop k d)) k = None"
  by (induction d) (auto simp: dict_pop_def)

lemma dict_pop_snd: "snd (dict_pop k d) = map_of d k"
  by (simp add: dict_pop_def)


lemma holds_id_add_id:
  assumes "holds_id (obj_add_id self jd_id s) c j"
  shows "holds_id s c j \<or> (c = self \<and> j = jd_id)"
proof (cases "cat_store s self")
  case None
  with assms show ?thesis by (simp add: obj_add_id_def)
next
  case (Some cat)
  show ?thesis
  proof (cases "id_store s jd_id")
    case None
    with assms Some show ?thesis by (simp add: obj_add_id_def)
  next
    case (Some obj)
    show ?thesis
    proof (cases "c = self")
      case True
      with assms \<open>cat_store s self = Some cat\<close> Some
      have "j \<in> snd ` set (dict_set (io_code obj) jd_id (co_ids cat))"
        by (simp add: obj_add_id_def holds_id_def)
      then have "j = jd_id \<or> j \<in> snd ` set (co_ids cat)"
        by (rule dict_set_values)
      with True \<open>cat_store s self = Some cat\<close> show ?thesis
        by (auto simp: holds_id_def)
    next
      case False
      with assms \<open>cat_store s self = Some cat\<close> Some show ?thesis
        by (simp add: obj_add_id_def holds_id_def)
    qed
  qed
qed

lemma holds_category_add_id:
  "holds_category (obj_add_id self jd_id s) a k = holds_category s a k"
  by (simp add: obj_add_id_def holds_category_def split: option.splits)

lemma holds_id_remove_id:
  assumes "holds_id (fst (obj_remove_id self code s)) c j"
  shows "holds_id s c j"
proof (cases "cat_store s self")
  case None
  with assms show ?thesis by (simp add: obj_remove_id_def)
next
  case (Some cat)
  show ?thesis
  proof (cases "map_of (co_ids cat) code")
    case None
    with assms Some show ?thesis by (simp add: obj_remove_id_def dict_pop_def)
  next
    case found: (Some i)
    show ?thesis
    proof (cases "c = self")
      case True
      with assms Some found have "j \<in> snd ` set (fst (dict_pop code (co_ids cat)))"
        by (simp add: obj_remove_id_def holds_id_def dict_pop_def)
      then have "j \<in> snd ` set (co_ids cat)"
        by (rule dict_pop_values)
      with True Some show ?thesis by (simp add: holds_id_def)
    next
      case False
      with assms Some found show ?thesis
        by (simp add: obj_remove_id_def holds_id_def dict_pop_def)
    qed
  qed
qed

lemma holds_category_remove_id:
  "holds_category (fst (obj_remove_id self code s)) a k = holds_category s a k"
  by (simp add: obj_remove_id_def holds_category_def split: option.splits prod.splits)

lemma holds_category_add_category:
  assumes "holds_category (obj_add_category self category s) a k"
  shows "holds_category s a k \<or> (a = self \<and> k = category)"
proof (cases "area_store s self")
  case None
  with assms show ?thesis by (simp add: obj_add_category_def)
next
  case (Some area)
  show ?thesis
  proof (cases "cat_store s category")
    case None
    with assms Some show ?thesis by (simp add: obj_add_category_def)
  next
    case (Some cat)
    show ?thesis
    proof (cases "a = self")
      case True
      with assms \<open>area_store s self = Some area\<close> Some
      have "k \<in> snd ` set (dict_set (co_code cat) category (ao_categories area))"
        by (simp add: obj_add_category_def holds_category_def)
      then have "k = category \<or> k \<in> snd ` set (ao_categories area)"
        by (rule dict_set_values)
      with True \<open>area_store s self = Some area\<close> show ?thesis
        by (auto simp: holds_category_def)
    next
      case False
      with assms \<open>area_store s self = Some area\<close> Some show ?thesis
        by (simp add: obj_add_category_def holds_category_def)
    qed
  qed
qed

lemma co_ids_add_category:
  "map_option co_ids (cat_store (obj_add_category self category s) c) = map_option co_ids (cat_store s c)"
  by (auto simp: obj_add_category_def split: option.splits)

lemma holds_id_add_category:
  "holds_id (obj_add_category self category s) c j = holds_id s c j"
  using co_ids_add_category [of self category s c]
  by (auto simp: holds_id_def split: option.splits)

lemma holds_category_remove_category:
  assumes "holds_category (fst (obj_remove_category self code s)) a k"
  shows "holds_category s a k"
proof (cases "area_store s self")
  case None
  with assms show ?thesis by (simp add: obj_remove_category_def)
next
  case (Some area)
  show ?thesis
  proof (cases "map_of (ao_categories area) code")
    case None
    with assms Some show ?thesis by (simp add: obj_remove_category_def dict_pop_def)
  next
    case found: (Some i)
    show ?thesis
    proof (cases "a = self")
      case True
      with assms Some found have "k \<in> snd ` set (fst (dict_pop code (ao_categories area)))"
        by (simp add: obj_remove_category_def holds_category_def dict_pop_def)
      then have "k \<in> snd ` set (ao_categories area)"
        by (rule dict_pop_values)
      with True Some show ?thesis by (simp add: holds_category_def)
    next
      case False
      with assms Some found show ?thesis
        by (simp add: obj_remove_category_def holds_category_def dict_pop_def)
    qed
  qed
qed

lemma co_ids_remove_category:
  "map_option co_ids (cat_store (fst (obj_remove_category self code s)) c) =
   map_option co_ids (cat_store s c)"
  by (auto simp: obj_remove_category_def split: option.splits prod.splits)

lemma holds_id_remove_category:
  "holds_id (fst (obj_remove_category self code s)) c j = holds_id s c j"
  using co_ids_remove_category [of self code s c]
  by (auto simp: holds_id_def split: option.splits)


lemma exclusive_step:
  assumes "exclusive s" and "hand_over s operation"
  shows "exclusive (apply_operation operation s)"
proof (cases operation)
  case (AddId self jd_id)
  have "c1 = c2"
    if "holds_id (obj_add_id self jd_id s) c1 j" "holds_id (obj_add_id self jd_id s) c2 j"
    for j c1 c2
  proof -
    from that have h: "holds_id s c1 j \<or> (c1 = self \<and> j = jd_id)"
        "holds_id s c2 j \<or> (c2 = self \<and> j = jd_id)"
      by (auto dest: holds_id_add_id)
    from assms(2) AddId have only: "\<And>c. holds_id s c jd_id \<Longrightarrow> c = self" by simp
    from assms(1) have ex: "\<And>a b. holds_id s a j \<Longrightarrow> holds_id s b j \<Longrightarrow> a = b"
      unfolding exclusive_def by blast
    from h only ex show ?thesis by metis
  qed
  moreover from assms(1)
  have "\<And>k a1 a2. holds_category s a1 k \<Longrightarrow> holds_category s a2 k \<Longrightarrow> a1 = a2"
    unfolding exclusive_def by blast
  ultimately show ?thesis
    unfolding exclusive_def AddId by (simp add: holds_category_add_id) blast
next
  case (RemoveId self code)
  from assms(1) show ?thesis
    unfolding exclusive_def RemoveId
    by (simp add: holds_category_remove_id) (blast dest: holds_id_remove_id)
next
  case (AddCategory self category)
  have "a1 = a2"
    if "holds_category (obj_add_category self category s) a1 k"
       "holds_category (obj_add_category self category s) a2 k"
    for k a1 a2
  proof -
    from that have h: "holds_category s a1 k \<or> (a1 = self \<and> k = category)"
        "holds_category s a2 k \<or> (a2 = self \<and> k = category)"
      by (auto dest: holds_category_add_category)
    from assms(2) AddCategory have only: "\<And>a. holds_category s a category \<Longrightarrow> a = self" by simp
    from assms(1) have ex: "\<And>a b. holds_category s a k \<Longrightarrow> holds_category s b k \<Longrightarrow> a = b"
      unfolding exclusive_def by blast
    from h only ex show ?thesis by metis
  qed
  moreover from assms(1)
  have "\<And>j c1 c2. holds_id s c1 j \<Longrightarrow> holds_id s c2 j \<Longrightarrow> c1 = c2"
    unfolding exclusive_def by blast
  ultimately show ?thesis
    unfolding exclusive_def AddCategory by (simp add: holds_id_add_category) blast
next
  case (RemoveCategory self code)
  from assms(1) show ?thesis
    unfolding exclusive_def RemoveCategory
    by (simp add: holds_id_remove_category) (blast dest: holds_category_remove_category)
qed

lemma exclusive_run:
  "exclusive s \<Longrightarrow> hand_overs s operations \<Longrightarrow> exclusive (run operations s)"
proof (induction operations arbitrary: s)
  case Nil
  then show ?case by simp
next
  case (Cons operation operations)
  then show ?case by (simp add: exclusive_step)
qed

lemma add_id_sets_reference:
  assumes "cat_store s self = Some cat" and "id_store s jd_id = Some obj"
  shows "map_option io_category (id_store (obj_add_id self jd_id s) jd_id) = Some (Some self) \<and>
         holds_id (obj_add_id self jd_id s) self jd_id"
  using assms dict_set_holds [of jd_id "io_code obj" "co_ids cat"]
  by (simp add: obj_add_id_def holds_id_def)

lemma remove_id_clears_reference:
  assumes "cat_store s self = Some cat" and "map_of (co_ids cat) code = Some jd_id"
    and "id_store s jd_id = Some obj"
  shows "snd (obj_remove_id self code s) = Some jd_id \<and>
         map_option io_category (id_store (fst (obj_remove_id self code s)) jd_id) = Some None \<and>
         map_option (\<lambda>cat'. map_of (co_ids cat') code) (cat_store (fst (obj_remove_id self code s)) self) =
           Some None"
  using assms dict_pop_lookup [of code "co_ids cat"]
  by (simp add: obj_remove_id_def dict_pop_def)

lemma add_category_sets_reference:
  assumes "area_store s self = Some area" and "cat_store s category = Some cat"
  shows "map_option co_area (cat_store (obj_add_category self category s) category) = Some (Some self) \<and>
         holds_category (obj_add_category self category s) self category"
  using assms dict_set_holds [of category "co_code cat" "ao_categories area"]
  by (simp add: obj_add_category_def holds_category_def)

lemma remove_category_clears_reference:
  assumes "area_store s self = Some area" and "map_of (ao_categories area) code = Some category"
    and "cat_store s category = Some cat" and "co_ids cat \<noteq> []"
  shows "snd (obj_remove_category self code s) = Some category \<and>
         map_option co_area (cat_store (fst (obj_remove_category self code s)) category) = Some None \<and>
         map_option (\<lambda>area'. map_of (ao_categories area') code)
           (area_store (fst (obj_remove_category self code s)) self) = Some None"
  using assms dict_pop_lookup [of code "ao_categories area"]
  by (simp add: obj_remove_category_def dict_pop_def)

text \<open>
  C9 (as amended). \<open>add_id\<close> and \<open>add_category\<close> store the child in the receiving
  parent's mapping and point the child's parent reference at that parent; they do not take
  the child out of a parent that holds it. After a sequence of the four operations no Id
  is in the mappings of two categories and no category in those of two areas, provided
  each addition adds a child that no other parent holds at that moment. An Id removed by
  \<open>remove_id\<close> is out of the mapping under its code and has its parent reference set to
  \<open>None\<close>, and so has a category with at least one Id that \<open>remove_category\<close> removes.
\<close>

theorem ownership_exclusive_under_hand_over:
  "(exclusive s \<and> hand_overs s operations \<longrightarrow> exclusive (run operations s)) \<and>
   (cat_store s c = Some cat \<and> id_store s i = Some obj \<longrightarrow>
      map_option io_category (id_store (obj_add_id c i s) i) = Some (Some c) \<and>
      holds_id (obj_add_id c i s) c i) \<and>
   (cat_store s c = Some cat \<and> map_of (co_ids cat) code = Some i \<and> id_store s i = Some obj \<longrightarrow>
      snd (obj_remove_id c code s) = Some i \<and>
      map_option io_category (id_store (fst (obj_remove_id c code s)) i) = Some None \<and>
      map_option (\<lambda>cat'. map_of (co_ids cat') code) (cat_store (fst (obj_remove_id c code s)) c) =
        Some None) \<and>
   (area_store s a = Some area \<and> cat_store s k = Some kat \<longrightarrow>
      map_option co_area (cat_store (obj_add_category a k s) k) = Some (Some a) \<and>
      holds_category (obj_add_category a k s) a k) \<and>
   (area_store s a = Some area \<and> map_of (ao_categories area) code = Some k \<and>
    cat_store s k = Some kat \<and> co_ids kat \<noteq> [] \<longrightarrow>
      snd (obj_remove_category a code s) = Some k \<and>
      map_option co_area (cat_store (fst (obj_remove_category a code s)) k) = Some None \<and>
      map_option (\<lambda>area'. map_of (ao_categories area') code)
        (area_store (fst (obj_remove_category a code s)) a) = Some None)"
  using exclusive_run [of s operations] add_id_sets_reference [of s c cat i obj]
    remove_id_clears_reference [of s c cat code i obj]
    add_category_sets_reference [of s a area k kat]
    remove_category_clears_reference [of s a area code k kat]
  by blast


lemma store_fresh_fields:
  "id_store store_fresh 0 =
     Some \<lparr>io_code = S ''11.01'', io_name = S ''11.01 Inbox'', io_section = False, io_category = None\<rparr>"
  "cat_store store_fresh 0 =
     Some \<lparr>co_code = S ''11'', co_name = S ''11 Finance'', co_ids = [], co_area = None\<rparr>"
  "cat_store store_fresh (Suc 0) =
     Some \<lparr>co_code = S ''12'', co_name = S ''12 Health'', co_ids = [], co_area = None\<rparr>"
  "area_store store_fresh 0 =
     Some \<lparr>ao_code = S ''10-19'', ao_name = S ''10-19 Life admin'', ao_categories = []\<rparr>"
  by (simp_all add: store_fresh_def)

lemma holds_nothing_fresh: "\<not> holds_id store_fresh c j" "\<not> holds_category store_fresh a k"
  by (simp_all add: holds_id_def holds_category_def store_fresh_def)

text \<open>
  C9 as stated fails: the Id 0 added to the category 0 and then to the category 1 is in
  the mappings of both.
\<close>

theorem shared_id_counterexample:
  "holds_id (run [AddId 0 0, AddId 1 0] store_fresh) 0 0 \<and>
   holds_id (run [AddId 0 0, AddId 1 0] store_fresh) 1 0 \<and>
   \<not> exclusive (run [AddId 0 0, AddId 1 0] store_fresh)"
proof -
  have a: "holds_id (run [AddId 0 0, AddId 1 0] store_fresh) 0 0"
    by (simp add: obj_add_id_def holds_id_def store_fresh_fields)
  have b: "holds_id (run [AddId 0 0, AddId 1 0] store_fresh) 1 0"
    by (simp add: obj_add_id_def holds_id_def store_fresh_fields)
  have "(0::nat) \<noteq> 1" by simp
  with a b have "\<not> exclusive (run [AddId 0 0, AddId 1 0] store_fresh)"
    unfolding exclusive_def by blast
  with a b show ?thesis by blast
qed

text \<open>
  A category without Ids is false as a condition, so \<open>remove_category\<close> takes it out of
  the area's mapping and leaves its parent reference as it was.
\<close>

lemma remove_empty_category_keeps_reference:
  "map_option co_area
     (cat_store (run [AddCategory 0 0, RemoveCategory 0 (S ''11'')] store_fresh) 0) = Some (Some 0) \<and>
   \<not> holds_category (run [AddCategory 0 0, RemoveCategory 0 (S ''11'')] store_fresh) 0 0"
  by (simp add: obj_add_category_def obj_remove_category_def dict_pop_def holds_category_def
      store_fresh_fields)


text \<open>
  A sequence of hand-overs from the example store, and the four operations on it.
\<close>

theorem ownership_exclusive_under_hand_over_witness:
  "exclusive store_fresh \<and>
   hand_overs store_fresh [AddId 0 0, AddCategory 0 0, RemoveId 0 (S ''11.01''), AddId 1 0] \<and>
   exclusive (run [AddId 0 0, AddCategory 0 0, RemoveId 0 (S ''11.01''), AddId 1 0] store_fresh) \<and>
   map_option io_category (id_store (obj_add_id 0 0 store_fresh) 0) = Some (Some 0) \<and>
   map_option io_category
     (id_store (fst (obj_remove_id 0 (S ''11.01'') (obj_add_id 0 0 store_fresh))) 0) = Some None \<and>
   map_option co_area (cat_store (obj_add_category 0 0 store_fresh) 0) = Some (Some 0) \<and>
   map_option co_area
     (cat_store (fst (obj_remove_category 0 (S ''11'')
        (run [AddId 0 0, AddCategory 0 0] store_fresh))) 0) = Some None"
proof -
  let ?ops = "[AddId 0 0, AddCategory 0 0, RemoveId 0 (S ''11.01''), AddId 1 0]"
  let ?s1 = "obj_add_id 0 0 store_fresh"
  let ?s2 = "run [AddId 0 0, AddCategory 0 0] store_fresh"
  have e: "exclusive store_fresh"
    by (simp add: exclusive_def holds_nothing_fresh)
  have h1: "hand_over store_fresh (AddId 0 0)"
    by (simp add: holds_nothing_fresh)
  have h2: "hand_over ?s1 (AddCategory 0 0)"
    by (simp add: holds_category_add_id holds_nothing_fresh)
  have held: "\<not> holds_id (fst (obj_remove_id 0 (S ''11.01'') (obj_add_category 0 0 ?s1))) c 0" for c
    by (simp add: obj_add_id_def obj_add_category_def obj_remove_id_def dict_pop_def holds_id_def
        store_fresh_def)
  have h: "hand_overs store_fresh ?ops"
    using h1 h2 held by simp
  have f: "cat_store store_fresh 0 =
             Some \<lparr>co_code = S ''11'', co_name = S ''11 Finance'', co_ids = [], co_area = None\<rparr>"
      "id_store store_fresh 0 =
         Some \<lparr>io_code = S ''11.01'', io_name = S ''11.01 Inbox'', io_section = False,
               io_category = None\<rparr>"
      "area_store store_fresh 0 =
         Some \<lparr>ao_code = S ''10-19'', ao_name = S ''10-19 Life admin'', ao_categories = []\<rparr>"
    by (simp_all add: store_fresh_fields)
  from ownership_exclusive_under_hand_over
    [where s = store_fresh and operations = ?ops and c = 0 and i = 0 and a = 0 and k = 0] e h f
  have A: "exclusive (run ?ops store_fresh)"
      "map_option io_category (id_store (obj_add_id 0 0 store_fresh) 0) = Some (Some 0)"
      "map_option co_area (cat_store (obj_add_category 0 0 store_fresh) 0) = Some (Some 0)"
    by blast+
  have g1: "cat_store ?s1 0 =
      Some \<lparr>co_code = S ''11'', co_name = S ''11 Finance'', co_ids = [(S ''11.01'', 0)],
            co_area = None\<rparr>"
      "id_store ?s1 0 =
         Some \<lparr>io_code = S ''11.01'', io_name = S ''11.01 Inbox'', io_section = False,
               io_category = Some 0\<rparr>"
    by (simp_all add: obj_add_id_def store_fresh_fields)
  have g1': "map_of (co_ids \<lparr>co_code = S ''11'', co_name = S ''11 Finance'',
        co_ids = [(S ''11.01'', 0::nat)], co_area = None\<rparr>) (S ''11.01'') = Some 0"
    by simp
  from ownership_exclusive_under_hand_over
    [where s = ?s1 and c = 0 and i = 0 and code = "S ''11.01''"] g1 g1'
  have B: "map_option io_category (id_store (fst (obj_remove_id 0 (S ''11.01'') ?s1)) 0) = Some None"
    by blast
  have g2: "area_store ?s2 0 =
      Some \<lparr>ao_code = S ''10-19'', ao_name = S ''10-19 Life admin'', ao_categories = [(S ''11'', 0)]\<rparr>"
      "cat_store ?s2 0 =
         Some \<lparr>co_code = S ''11'', co_name = S ''11 Finance'', co_ids = [(S ''11.01'', 0)],
               co_area = Some 0\<rparr>"
    by (simp_all add: obj_add_id_def obj_add_category_def store_fresh_fields)
  have g2': "map_of (ao_categories \<lparr>ao_code = S ''10-19'', ao_name = S ''10-19 Life admin'',
        ao_categories = [(S ''11'', 0::nat)]\<rparr>) (S ''11'') = Some 0"
      "co_ids \<lparr>co_code = S ''11'', co_name = S ''11 Finance'', co_ids = [(S ''11.01'', 0::nat)],
               co_area = Some (0::nat)\<rparr> \<noteq> []"
    by simp_all
  from ownership_exclusive_under_hand_over
    [where s = ?s2 and a = 0 and k = 0 and code = "S ''11''"] g2 g2'
  have C: "map_option co_area (cat_store (fst (obj_remove_category 0 (S ''11'') ?s2)) 0) = Some None"
    by blast
  from e h A B C show ?thesis by blast
qed

end
